theory Spec2Isabelle
  imports Main "HOL-Library.Word"
begin

section \<open>The file cache of cache/config\_file.go\<close>

text \<open>
  The cache maps a file id (a string built from namespace, group and file name) to an
  entry. Times are instants of \<open>time.Time\<close>, counted in nanoseconds as an unbounded
  integer; a \<open>time.Duration\<close> is a number of nanoseconds. The package-level counters
  are Go \<open>int\<close>s, taken as 64-bit words whose addition wraps. \<open>Version\<close> is a
  \<open>uint64\<close>.
\<close>

subsection \<open>Constants\<close>

definition BaseExpireTimeAfterWrite :: int where
  "BaseExpireTimeAfterWrite = 60 * 60"

definition FileIdSeparator :: string where
  "FileIdSeparator = ''+''"

text \<open>\<open>time.Second\<close> and \<open>time.Minute\<close>, in nanoseconds.\<close>

definition Second :: int where
  "Second = 1000000000"

definition Minute :: int where
  "Minute = 60 * Second"

subsection \<open>Data\<close>

record Entry =
  Content :: string
  Md5 :: string
  Version :: "64 word"
  ExpireTime :: int
  Empty :: bool

text \<open>
  \<open>model.ConfigFileRelease\<close>, with the six fields the cache reads. \<open>newEntry\<close> takes
  \<open>file.Version\<close> as a \<open>uint64\<close> without a conversion, which fixes its type.
\<close>

record ConfigFileRelease =
  Namespace :: string
  Group :: string
  FileName :: string
  FileContent :: string
  FileMd5 :: string
  FileVersion :: "64 word"

text \<open>A Go \<open>error\<close> value, by its message.\<close>

datatype error = Error string

text \<open>
  What \<open>storage.GetConfigFileRelease\<close> returns at one call: the pair
  \<open>(file, err)\<close>, each of them possibly \<open>nil\<close>. The storage is the behaviour of the
  collaborator at the time of the call, a function of the three identity parts.
\<close>

type_synonym Store = "string \<Rightarrow> string \<Rightarrow> string \<Rightarrow> ConfigFileRelease option \<times> error option"

text \<open>The two kinds of lines the cache writes to the logger.\<close>

datatype logLine =
  LoadError string string string error
  | ClearExpired "64 word"

text \<open>
  The cache and the package state around it: the two \<open>sync.Map\<close>s of \<open>FileCache\<close>
  (of the lock registry only the set of keys that own a mutex), the five counters, the
  lines logged so far and the storage invocations made so far, oldest first.
\<close>

record FileCache =
  files :: "string \<rightharpoonup> Entry"
  fileLoadLocks :: "string set"
  putCnt :: "64 word"
  loadCnt :: "64 word"
  getCnt :: "64 word"
  removeCnt :: "64 word"
  expireCnt :: "64 word"
  logged :: "logLine list"
  loads :: "(string \<times> string \<times> string) list"

definition NewFileCache :: FileCache where
  "NewFileCache =
     \<lparr>files = Map.empty, fileLoadLocks = {}, putCnt = 0, loadCnt = 0, getCnt = 0,
      removeCnt = 0, expireCnt = 0, logged = [], loads = []\<rparr>"

subsection \<open>Keys and expiry\<close>

definition GenFileId :: "string \<Rightarrow> string \<Rightarrow> string \<Rightarrow> string" where
  "GenFileId namespace grp fileName =
     namespace @ FileIdSeparator @ grp @ FileIdSeparator @ fileName"

text \<open>
  \<open>rand.Intn n\<close> of the Go library yields an integer of \<open>[0, n)\<close>; the generator's raw
  draw is an argument, reduced into that range.
\<close>

definition Intn :: "int \<Rightarrow> nat \<Rightarrow> int" where
  "Intn n raw = int raw mod n"

text \<open>\<open>now\<close> is the reading of \<open>time.Now()\<close>, \<open>raw\<close> the generator's draw.\<close>

definition getExpireTime :: "int \<Rightarrow> nat \<Rightarrow> int" where
  "getExpireTime now raw =
     (let randTime = Intn (10 * 60) raw + BaseExpireTimeAfterWrite
      in now + randTime * Second)"

definition newEntry :: "string \<Rightarrow> string \<Rightarrow> 64 word \<Rightarrow> int \<Rightarrow> nat \<Rightarrow> Entry" where
  "newEntry content md5 version now raw =
     \<lparr>Content = content, Md5 = md5, Version = version,
      ExpireTime = getExpireTime now raw, Empty = False\<rparr>"

subsection \<open>Operations\<close>

text \<open>\<open>Get\<close> returns \<open>(entry, true)\<close> as \<open>Some entry\<close> and \<open>(nil, false)\<close> as \<open>None\<close>.\<close>

definition Get :: "FileCache \<Rightarrow> string \<Rightarrow> string \<Rightarrow> string \<Rightarrow> Entry option" where
  "Get fc namespace grp fileName = files fc (GenFileId namespace grp fileName)"

definition Put :: "int \<Rightarrow> nat \<Rightarrow> ConfigFileRelease \<Rightarrow> FileCache \<Rightarrow> FileCache" where
  "Put now raw file fc0 =
     (let fc = fc0\<lparr>putCnt := putCnt fc0 + 1\<rparr>;
          fileId = GenFileId (Namespace file) (Group file) (FileName file)
      in case Get fc (Namespace file) (Group file) (FileName file) of
           None \<Rightarrow>
             fc\<lparr>files := (files fc)(fileId \<mapsto>
                   newEntry (FileContent file) (FileMd5 file) (FileVersion file) now raw)\<rparr>
         | Some storedEntry \<Rightarrow>
             if Empty storedEntry \<or> FileVersion file > Version storedEntry
             then fc\<lparr>files := (files fc)(fileId \<mapsto>
                   newEntry (FileContent file) (FileMd5 file) (FileVersion file) now raw)\<rparr>
             else fc)"

text \<open>
  \<open>GetOrLoadIfAbsent\<close> run alone: the mutex of the key is free when it is asked for and
  free again at the return, so of the locking only the registration of the key remains.
  The result \<open>(entry, nil)\<close> is \<open>Inr entry\<close>, the result \<open>(nil, err)\<close> is \<open>Inl err\<close>.
\<close>

definition GetOrLoadIfAbsent ::
  "Store \<Rightarrow> int \<Rightarrow> nat \<Rightarrow> string \<Rightarrow> string \<Rightarrow> string \<Rightarrow> FileCache \<Rightarrow> (error + Entry) \<times> FileCache" where
  "GetOrLoadIfAbsent storage now raw namespace grp fileName fc0 =
     (let fc1 = fc0\<lparr>getCnt := getCnt fc0 + 1\<rparr>;
          fileId = GenFileId namespace grp fileName
      in case files fc1 fileId of
           Some entry \<Rightarrow> (Inr entry, fc1)
         | None \<Rightarrow>
            (let fc2 = fc1\<lparr>fileLoadLocks := insert fileId (fileLoadLocks fc1)\<rparr>
             in case files fc2 fileId of
                  Some entry \<Rightarrow> (Inr entry, fc2)
                | None \<Rightarrow>
                   (let fc3 = fc2\<lparr>loadCnt := loadCnt fc2 + 1,
                                    loads := loads fc2 @ [(namespace, grp, fileName)]\<rparr>
                    in case storage namespace grp fileName of
                         (_, Some err) \<Rightarrow>
                           (Inl err,
                            fc3\<lparr>logged := logged fc3 @ [LoadError namespace grp fileName err]\<rparr>)
                       | (Some file, None) \<Rightarrow>
                           (let entry = newEntry (FileContent file) (FileMd5 file)
                                          (FileVersion file) now raw
                            in (Inr entry, fc3\<lparr>files := (files fc3)(fileId \<mapsto> entry)\<rparr>))
                       | (None, None) \<Rightarrow>
                           (let emptyEntry = \<lparr>Content = '''', Md5 = '''', Version = 0,
                                               ExpireTime = getExpireTime now raw, Empty = True\<rparr>
                            in (Inr emptyEntry,
                                fc3\<lparr>files := (files fc3)(fileId \<mapsto> emptyEntry)\<rparr>)))))"

definition Remove :: "string \<Rightarrow> string \<Rightarrow> string \<Rightarrow> FileCache \<Rightarrow> FileCache" where
  "Remove namespace grp fileName fc =
     fc\<lparr>removeCnt := removeCnt fc + 1,
        files := (files fc)(GenFileId namespace grp fileName := None)\<rparr>"

text \<open>
  One tick of the task of \<open>startClearExpireEntryTask\<close>. \<open>files.Range\<close> calls its
  function once for every key of the map, in an order of its own, and the function reads
  the clock at each call: the argument lists the keys in the order of the visits, each
  with the clock reading of its visit. \<open>rangeClear\<close> is the loop, carrying the map and
  \<open>curExpiredFileCnt\<close>.
\<close>

fun rangeClear ::
  "(string \<times> int) list \<Rightarrow> (string \<rightharpoonup> Entry) \<Rightarrow> 64 word \<Rightarrow> (string \<rightharpoonup> Entry) \<times> 64 word" where
  "rangeClear [] m curExpiredFileCnt = (m, curExpiredFileCnt)"
| "rangeClear ((fileId, now) # rest) m curExpiredFileCnt =
     (case m fileId of
        None \<Rightarrow> rangeClear rest m curExpiredFileCnt
      | Some entry \<Rightarrow>
          if now > ExpireTime entry
          then rangeClear rest (m(fileId := None)) (curExpiredFileCnt + 1)
          else rangeClear rest m curExpiredFileCnt)"

definition clearExpireEntryTick :: "(string \<times> int) list \<Rightarrow> FileCache \<Rightarrow> FileCache" where
  "clearExpireEntryTick visits fc =
     (case rangeClear visits (files fc) 0 of
        (m, curExpiredFileCnt) \<Rightarrow>
          (let fc1 = fc\<lparr>files := m\<rparr>;
               fc2 = (if 0 <s curExpiredFileCnt
                      then fc1\<lparr>logged := logged fc1 @ [ClearExpired curExpiredFileCnt]\<rparr>
                      else fc1)
           in fc2\<lparr>expireCnt := expireCnt fc2 + curExpiredFileCnt\<rparr>))"

text \<open>
  Whether a visit of the sweep finds its entry expired in the map \<open>m\<close>: the key has an
  entry and the clock reading of the visit is after its \<open>ExpireTime\<close>.
\<close>

definition expiredAt :: "(string \<rightharpoonup> Entry) \<Rightarrow> string \<times> int \<Rightarrow> bool" where
  "expiredAt m visit =
     (case m (fst visit) of None \<Rightarrow> False | Some entry \<Rightarrow> snd visit > ExpireTime entry)"

subsection \<open>Runs of the cache\<close>

text \<open>
  A call of the cache's interface or a tick of the sweep, with what the environment
  supplies for it (the storage's behaviour, the clock reading, the random draw), and the
  cache after a sequence of them, one after the other.
\<close>

datatype call =
  CallPut int nat ConfigFileRelease
  | CallGet string string string
  | CallGetOrLoadIfAbsent Store int nat string string string
  | CallRemove string string string
  | Tick "(string \<times> int) list"

fun perform :: "call \<Rightarrow> FileCache \<Rightarrow> FileCache" where
  "perform (CallPut now raw file) fc = Put now raw file fc"
| "perform (CallGet namespace grp fileName) fc = fc"
| "perform (CallGetOrLoadIfAbsent storage now raw namespace grp fileName) fc =
     snd (GetOrLoadIfAbsent storage now raw namespace grp fileName fc)"
| "perform (CallRemove namespace grp fileName) fc = Remove namespace grp fileName fc"
| "perform (Tick visits) fc = clearExpireEntryTick visits fc"

fun performAll :: "call list \<Rightarrow> FileCache \<Rightarrow> FileCache" where
  "performAll [] fc = fc"
| "performAll (c # cs) fc = performAll cs (perform c fc)"

text \<open>
  An entry marked \<open>Empty\<close> holds nothing else: no content, no checksum, version zero.
\<close>

definition blankIfEmpty :: "Entry \<Rightarrow> bool" where
  "blankIfEmpty entry = (Empty entry \<longrightarrow> Content entry = '''' \<and> Md5 entry = '''' \<and> Version entry = 0)"

definition negativesBlank :: "(string \<rightharpoonup> Entry) \<Rightarrow> bool" where
  "negativesBlank m = (\<forall>fileId entry. m fileId = Some entry \<longrightarrow> blankIfEmpty entry)"

subsection \<open>Concurrent callers of GetOrLoadIfAbsent\<close>

text \<open>
  Several goroutines inside \<open>GetOrLoadIfAbsent\<close> at once, as an interleaving of atomic
  steps: every operation on a \<open>sync.Map\<close>, every operation on a mutex, the start of
  the storage call and its return are one step each. A caller is the key it was called
  with and the place it has reached:
  \<^item> \<open>Start\<close>: before \<open>getCnt++\<close> and the first \<open>files.Load\<close>;
  \<^item> \<open>AtLoadOrStore\<close>: before \<open>fileLoadLocks.LoadOrStore\<close>;
  \<^item> \<open>AtLock\<close>: before \<open>loadLock.Lock()\<close>, where it waits while the mutex is held;
  \<^item> \<open>AtDoubleCheck\<close>: holding the mutex, before the second \<open>files.Load\<close>;
  \<^item> \<open>AtCall\<close>: before \<open>loadCnt++\<close> and the call of the storage;
  \<^item> \<open>InCall\<close>: the storage call is in flight;
  \<^item> \<open>AtStore\<close>: the storage has returned the pair it carries;
  \<^item> \<open>AtUnlock\<close>: the result is fixed, the deferred \<open>Unlock\<close> is due;
  \<^item> \<open>Returned\<close>: the call is over, with its result.

  The increments of the counters, which the source leaves unsynchronised, are taken
  together with the step they stand next to; no property of several callers below reads
  them.
\<close>

type_synonym fileKey = "string \<times> string \<times> string"

datatype pc =
  Start
  | AtLoadOrStore
  | AtLock
  | AtDoubleCheck
  | AtCall
  | InCall
  | AtStore "ConfigFileRelease option \<times> error option"
  | AtUnlock "error + Entry"
  | Returned "error + Entry"

type_synonym caller = "fileKey \<times> pc"

text \<open>
  The shared state: the cache with its package state, and the set of file ids whose mutex
  is locked. \<open>fileLoadLocks\<close> holds one mutex for a file id, the one \<open>LoadOrStore\<close>
  stored first.
\<close>

record Shared = FileCache +
  locked :: "string set"

definition fileIdOf :: "fileKey \<Rightarrow> string" where
  "fileIdOf key = (case key of (namespace, grp, fileName) \<Rightarrow> GenFileId namespace grp fileName)"

text \<open>
  One step of a caller, with the clock reading and the random draw that \<open>getExpireTime\<close>
  takes when the step stores an entry; \<open>None\<close> when the caller cannot move: it waits for
  a locked mutex, or it has returned.
\<close>

fun callerStep :: "Store \<Rightarrow> int \<Rightarrow> nat \<Rightarrow> caller \<Rightarrow> Shared \<Rightarrow> (caller \<times> Shared) option" where
  "callerStep storage now raw (key, Start) sh =
     (let sh1 = sh\<lparr>getCnt := getCnt sh + 1\<rparr>
      in case files sh1 (fileIdOf key) of
           Some entry \<Rightarrow> Some ((key, Returned (Inr entry)), sh1)
         | None \<Rightarrow> Some ((key, AtLoadOrStore), sh1))"
| "callerStep storage now raw (key, AtLoadOrStore) sh =
     Some ((key, AtLock), sh\<lparr>fileLoadLocks := insert (fileIdOf key) (fileLoadLocks sh)\<rparr>)"
| "callerStep storage now raw (key, AtLock) sh =
     (if fileIdOf key \<in> locked sh then None
      else Some ((key, AtDoubleCheck), sh\<lparr>locked := insert (fileIdOf key) (locked sh)\<rparr>))"
| "callerStep storage now raw (key, AtDoubleCheck) sh =
     (case files sh (fileIdOf key) of
        Some entry \<Rightarrow> Some ((key, AtUnlock (Inr entry)), sh)
      | None \<Rightarrow> Some ((key, AtCall), sh))"
| "callerStep storage now raw (key, AtCall) sh =
     Some ((key, InCall), sh\<lparr>loadCnt := loadCnt sh + 1, loads := loads sh @ [key]\<rparr>)"
| "callerStep storage now raw (key, InCall) sh =
     (case key of (namespace, grp, fileName) \<Rightarrow>
        Some ((key, AtStore (storage namespace grp fileName)), sh))"
| "callerStep storage now raw (key, AtStore res) sh =
     (case key of (namespace, grp, fileName) \<Rightarrow>
       (case res of
          (_, Some err) \<Rightarrow>
            Some ((key, AtUnlock (Inl err)),
                  sh\<lparr>logged := logged sh @ [LoadError namespace grp fileName err]\<rparr>)
        | (Some file, None) \<Rightarrow>
            (let entry = newEntry (FileContent file) (FileMd5 file) (FileVersion file) now raw
             in Some ((key, AtUnlock (Inr entry)),
                      sh\<lparr>files := (files sh)(fileIdOf key \<mapsto> entry)\<rparr>))
        | (None, None) \<Rightarrow>
            (let emptyEntry = \<lparr>Content = '''', Md5 = '''', Version = 0,
                               ExpireTime = getExpireTime now raw, Empty = True\<rparr>
             in Some ((key, AtUnlock (Inr emptyEntry)),
                      sh\<lparr>files := (files sh)(fileIdOf key \<mapsto> emptyEntry)\<rparr>))))"
| "callerStep storage now raw (key, AtUnlock r) sh =
     Some ((key, Returned r), sh\<lparr>locked := locked sh - {fileIdOf key}\<rparr>)"
| "callerStep storage now raw (key, Returned r) sh = None"

text \<open>A step of the system is a step of one of its callers.\<close>

inductive step :: "Store \<Rightarrow> caller list \<times> Shared \<Rightarrow> caller list \<times> Shared \<Rightarrow> bool"
  for storage :: Store where
  stepI: "i < length cs \<Longrightarrow> callerStep storage now raw (cs ! i) sh = Some (c', sh')
      \<Longrightarrow> step storage (cs, sh) (cs[i := c'], sh')"

text \<open>The places between \<open>Lock\<close> and \<open>Unlock\<close>.\<close>

fun holdsLock :: "pc \<Rightarrow> bool" where
  "holdsLock Start = False"
| "holdsLock AtLoadOrStore = False"
| "holdsLock AtLock = False"
| "holdsLock AtDoubleCheck = True"
| "holdsLock AtCall = True"
| "holdsLock InCall = True"
| "holdsLock (AtStore res) = True"
| "holdsLock (AtUnlock r) = True"
| "holdsLock (Returned r) = False"

text \<open>
  The run that a schedule fixes: which caller moves next, with the clock reading and the
  draw of its step. \<open>None\<close> when the schedule names a caller that cannot move.
\<close>

fun schedule :: "Store \<Rightarrow> (nat \<times> int \<times> nat) list \<Rightarrow> caller list \<times> Shared
    \<Rightarrow> (caller list \<times> Shared) option" where
  "schedule storage [] conf = Some conf"
| "schedule storage ((i, now, raw) # rest) (cs, sh) =
     (if i < length cs
      then (case callerStep storage now raw (cs ! i) sh of
              None \<Rightarrow> None
            | Some (c', sh') \<Rightarrow> schedule storage rest (cs[i := c'], sh'))
      else None)"

text \<open>The state after \<open>NewFileCache\<close>: no entry, no mutex locked.\<close>

definition newShared :: Shared where
  "newShared = FileCache.extend NewFileCache (Shared.fields {})"

text \<open>
  The mutex of a file id is held by at most one caller, and it is locked exactly when a
  caller of that file id is between \<open>Lock\<close> and \<open>Unlock\<close>.
\<close>

definition lockInv :: "caller list \<times> Shared \<Rightarrow> bool" where
  "lockInv conf = (case conf of (cs, sh) \<Rightarrow>
     (\<forall>i j. i < length cs \<and> j < length cs
         \<and> holdsLock (snd (cs ! i)) \<and> holdsLock (snd (cs ! j))
         \<and> fileIdOf (fst (cs ! i)) = fileIdOf (fst (cs ! j)) \<longrightarrow> i = j)
     \<and> (\<forall>k. k \<in> locked sh \<longleftrightarrow>
            (\<exists>i. i < length cs \<and> holdsLock (snd (cs ! i)) \<and> fileIdOf (fst (cs ! i)) = k)))"

text \<open>
  For a file id \<open>k\<close> that has no entry at the start: the storage has been asked for \<open>k\<close>
  once more than at the start as soon as a caller of \<open>k\<close> is past the call or \<open>k\<close> has an
  entry, and not before; a caller of \<open>k\<close> on its way to the storage sees no entry, and one
  with a result has the entry of \<open>k\<close> as its result. \<open>countLoads\<close> counts the storage
  invocations for a file id; \<open>noError\<close> says that the storage has no error for the callers
  of \<open>k\<close>.
\<close>

fun inFlight :: "pc \<Rightarrow> bool" where
  "inFlight InCall = True"
| "inFlight (AtStore res) = True"
| "inFlight p = False"

definition countLoads :: "string \<Rightarrow> fileKey list \<Rightarrow> nat" where
  "countLoads k keys = length (filter (\<lambda>key. fileIdOf key = k) keys)"

fun callerOk :: "Store \<Rightarrow> Entry option \<Rightarrow> caller \<Rightarrow> bool" where
  "callerOk storage cur (key, AtCall) = (cur = None)"
| "callerOk storage cur (key, InCall) = (cur = None)"
| "callerOk storage cur (key, AtStore res) =
     (cur = None \<and> (case key of (namespace, grp, fileName) \<Rightarrow> res = storage namespace grp fileName))"
| "callerOk storage cur (key, AtUnlock r) = (case cur of None \<Rightarrow> False | Some entry \<Rightarrow> r = Inr entry)"
| "callerOk storage cur (key, Returned r) = (case cur of None \<Rightarrow> False | Some entry \<Rightarrow> r = Inr entry)"
| "callerOk storage cur (key, p) = True"

definition onceInv :: "Store \<Rightarrow> string \<Rightarrow> nat \<Rightarrow> caller list \<times> Shared \<Rightarrow> bool" where
  "onceInv storage k n0 conf = (case conf of (cs, sh) \<Rightarrow>
     (\<forall>i. i < length cs \<and> fileIdOf (fst (cs ! i)) = k \<longrightarrow> callerOk storage (files sh k) (cs ! i))
     \<and> countLoads k (loads sh) =
         n0 + (if files sh k \<noteq> None
                  \<or> (\<exists>i. i < length cs \<and> fileIdOf (fst (cs ! i)) = k \<and> inFlight (snd (cs ! i)))
               then 1 else 0))"

definition noError :: "Store \<Rightarrow> string \<Rightarrow> caller list \<Rightarrow> bool" where
  "noError storage k cs =
     (\<forall>c \<in> set cs. fileIdOf (fst c) = k \<longrightarrow>
        (case fst c of (namespace, grp, fileName) \<Rightarrow> snd (storage namespace grp fileName) = None))"

text \<open>
  The start of a run: every caller at the entry of \<open>GetOrLoadIfAbsent\<close>, no mutex locked.
  The end: every caller has returned. \<open>remaining\<close> bounds the steps a caller has left.
\<close>

definition initial :: "caller list \<times> Shared \<Rightarrow> bool" where
  "initial conf = (case conf of (cs, sh) \<Rightarrow> (\<forall>c \<in> set cs. snd c = Start) \<and> locked sh = {})"

definition allReturned :: "caller list \<Rightarrow> bool" where
  "allReturned cs = (\<forall>c \<in> set cs. case snd c of Returned r \<Rightarrow> True | _ \<Rightarrow> False)"

fun remaining :: "pc \<Rightarrow> nat" where
  "remaining Start = 8"
| "remaining AtLoadOrStore = 7"
| "remaining AtLock = 6"
| "remaining AtDoubleCheck = 5"
| "remaining AtCall = 4"
| "remaining InCall = 3"
| "remaining (AtStore res) = 2"
| "remaining (AtUnlock r) = 1"
| "remaining (Returned r) = 0"

definition remainingSteps :: "caller list \<Rightarrow> nat" where
  "remainingSteps cs = sum_list (map (\<lambda>c. remaining (snd c)) cs)"

section \<open>Properties\<close>

subsection \<open>Keys\<close>

lemma GenFileId_plus:
  "GenFileId namespace grp fileName = namespace @ ''+'' @ grp @ ''+'' @ fileName"
  by (simp add: GenFileId_def FileIdSeparator_def)

text \<open>
  C8: the key is namespace, group and file name joined by the literal \<open>+\<close>, nothing
  escaped; two different triples whose parts hold a \<open>+\<close> get the same key, so
  \<open>GenFileId\<close> is not injective.
\<close>

theorem C8_GenFileId_collides:
  "(\<forall>namespace grp fileName.
      GenFileId namespace grp fileName = namespace @ ''+'' @ grp @ ''+'' @ fileName)
   \<and> (''a+b'', ''c'', ''d'') \<noteq> (''a'', ''b+c'', ''d'')
   \<and> GenFileId ''a+b'' ''c'' ''d'' = GenFileId ''a'' ''b+c'' ''d''
   \<and> \<not> inj (\<lambda>(namespace, grp, fileName). GenFileId namespace grp fileName)"
proof -
  have same: "GenFileId ''a+b'' ''c'' ''d'' = GenFileId ''a'' ''b+c'' ''d''"
    by (simp add: GenFileId_plus)
  have "\<not> inj (\<lambda>(namespace, grp, fileName). GenFileId namespace grp fileName)"
  proof
    assume "inj (\<lambda>(namespace, grp, fileName). GenFileId namespace grp fileName)"
    from injD [OF this, of "(''a+b'', ''c'', ''d'')" "(''a'', ''b+c'', ''d'')"] same
    show False by simp
  qed
  with same show ?thesis by (simp add: GenFileId_plus)
qed

theorem C8_GenFileId_collides_witness:
  "GenFileId ''a+b'' ''c'' ''d'' = ''a+b+c+d'' \<and> GenFileId ''a'' ''b+c'' ''d'' = ''a+b+c+d''"
  using C8_GenFileId_collides by simp

subsection \<open>Expiry\<close>

lemma residue_count:
  fixes n :: nat
  assumes "j < n"
  shows "card {r. r < n * m \<and> r mod n = j} = m"
proof -
  have "{r. r < n * m \<and> r mod n = j} = (\<lambda>q. q * n + j) ` {..<m}" (is "?L = ?R")
  proof (rule set_eqI)
    fix r
    show "r \<in> ?L \<longleftrightarrow> r \<in> ?R"
    proof
      assume "r \<in> ?L"
      then have lt: "r < n * m" and md: "r mod n = j" by simp_all
      from lt have "r < m * n" by (simp add: mult.commute)
      then have q: "r div n < m" by (rule less_mult_imp_div_less)
      have "r = (r div n) * n + r mod n" by simp
      with md have "r = (r div n) * n + j" by simp
      with q show "r \<in> ?R" by blast
    next
      assume "r \<in> ?R"
      then obtain q where q: "q < m" and r: "r = q * n + j" by auto
      from q have "Suc q \<le> m" by simp
      then have "Suc q * n \<le> m * n" by (rule mult_le_mono1)
      moreover from assms have "q * n + j < Suc q * n" by simp
      ultimately have "q * n + j < n * m" by (simp add: mult.commute)
      moreover from assms have "(q * n + j) mod n = j" by simp
      ultimately show "r \<in> ?L" using r by simp
    qed
  qed
  moreover have "inj_on (\<lambda>q. q * n + j) {..<m}"
    using assms by (auto simp add: inj_on_def)
  ultimately show ?thesis by (simp add: card_image)
qed

lemma Intn_nat: "Intn (10 * 60) raw = int (raw mod 600)"
  by (simp add: Intn_def zmod_int)

lemma Intn_range: "0 \<le> Intn (10 * 60) raw" "Intn (10 * 60) raw < 10 * 60"
  by (simp_all add: Intn_def)

lemma Intn_reached: "0 \<le> j \<Longrightarrow> j < 10 * 60 \<Longrightarrow> Intn (10 * 60) (nat j) = j"
  by (simp add: Intn_def)

lemma Intn_period: "Intn (10 * 60) (raw + 10 * 60) = Intn (10 * 60) raw"
  by (simp add: Intn_def)

lemma Intn_equidistributed:
  assumes "0 \<le> j" and "j < 10 * 60"
  shows "card {raw. raw < 10 * 60 * m \<and> Intn (10 * 60) raw = j} = m"
proof -
  from assms have n: "nat j < 600" by simp
  have e: "Intn (10 * 60) r = j \<longleftrightarrow> r mod 600 = nat j" for r
  proof -
    have "Intn (10 * 60) r = int (r mod 600)" by (rule Intn_nat)
    with assms(1) show ?thesis by auto
  qed
  have "{raw. raw < 10 * 60 * m \<and> Intn (10 * 60) raw = j}
      = {r. r < 600 * m \<and> r mod 600 = nat j}"
    unfolding e by simp
  with residue_count [OF n, of m] show ?thesis by simp
qed

lemma getExpireTime_jitter:
  "getExpireTime now raw = now + 60 * Minute + Intn (10 * 60) raw * Second"
  by (simp add: getExpireTime_def BaseExpireTimeAfterWrite_def Minute_def Second_def Let_def)

lemma getExpireTime_same:
  "getExpireTime now raw = getExpireTime now raw' \<longleftrightarrow> Intn (10 * 60) raw = Intn (10 * 60) raw'"
  by (simp add: getExpireTime_jitter Second_def)

lemma Put_accepted_expiry:
  assumes "case files fc (GenFileId (Namespace file) (Group file) (FileName file)) of
             None \<Rightarrow> True
           | Some storedEntry \<Rightarrow> Empty storedEntry \<or> Version storedEntry < FileVersion file"
  shows "map_option ExpireTime
           (files (Put now raw file fc) (GenFileId (Namespace file) (Group file) (FileName file)))
         = Some (getExpireTime now raw)"
  using assms
  by (auto simp add: Put_def Get_def newEntry_def Let_def split: option.splits)

lemma load_record_expiry:
  assumes "files fc (GenFileId namespace grp fileName) = None"
    and "storage namespace grp fileName = (Some loaded, None)"
  shows "\<exists>entry. fst (GetOrLoadIfAbsent storage now raw namespace grp fileName fc) = Inr entry
      \<and> files (snd (GetOrLoadIfAbsent storage now raw namespace grp fileName fc))
            (GenFileId namespace grp fileName) = Some entry
      \<and> \<not> Empty entry \<and> ExpireTime entry = getExpireTime now raw"
  using assms
  by (simp add: GetOrLoadIfAbsent_def newEntry_def Let_def)

lemma load_absent_expiry:
  assumes "files fc (GenFileId namespace grp fileName) = None"
    and "storage namespace grp fileName = (None, None)"
  shows "\<exists>entry. fst (GetOrLoadIfAbsent storage now raw namespace grp fileName fc) = Inr entry
      \<and> files (snd (GetOrLoadIfAbsent storage now raw namespace grp fileName fc))
            (GenFileId namespace grp fileName) = Some entry
      \<and> Empty entry \<and> ExpireTime entry = getExpireTime now raw"
  using assms
  by (simp add: GetOrLoadIfAbsent_def Let_def)

lemma Put_fresh_expiry:
  "\<forall>fileId entry. files (Put now raw file fc) fileId = Some entry
          \<and> files fc fileId \<noteq> Some entry \<longrightarrow> ExpireTime entry = getExpireTime now raw"
  by (auto simp add: Put_def Get_def newEntry_def Let_def split: option.splits if_splits)

lemma load_fresh_expiry:
  "\<forall>fileId entry.
      files (snd (GetOrLoadIfAbsent storage now raw namespace grp fileName fc)) fileId = Some entry
      \<and> files fc fileId \<noteq> Some entry \<longrightarrow> ExpireTime entry = getExpireTime now raw"
  by (auto simp add: GetOrLoadIfAbsent_def newEntry_def Let_def
      split: option.splits if_splits prod.splits)


text \<open>
  C5: the expiry from \<open>getExpireTime\<close> is the time of the write plus one hour plus a
  jitter, a whole number of seconds of \<open>[0, 10 minutes)\<close> taken from the generator's draw,
  so it lies 60 to less than 70 minutes after the write. The jitter takes every value of
  that range, repeats with period 600 in the draw, and over the draws below any multiple
  of 600 every value occurs equally often; two draws give the same expiry exactly when
  they give the same jitter. An accepted \<open>Put\<close>, a load of a record and a load of an
  absent record each store an entry with this expiry, and every entry that \<open>Put\<close> or
  \<open>GetOrLoadIfAbsent\<close> newly writes to the map carries it.
\<close>

theorem C5_expiry_jitter:
  "getExpireTime now raw = now + 60 * Minute + Intn (10 * 60) raw * Second
   \<and> 0 \<le> Intn (10 * 60) raw \<and> Intn (10 * 60) raw < 10 * 60
   \<and> 0 \<le> Intn (10 * 60) raw * Second \<and> Intn (10 * 60) raw * Second < 10 * Minute
   \<and> 60 * Minute \<le> getExpireTime now raw - now \<and> getExpireTime now raw - now < 70 * Minute
   \<and> (\<forall>j. 0 \<le> j \<and> j < 10 * 60 \<longrightarrow> Intn (10 * 60) (nat j) = j)
   \<and> Intn (10 * 60) (raw + 10 * 60) = Intn (10 * 60) raw
   \<and> (\<forall>j m. 0 \<le> j \<and> j < 10 * 60 \<longrightarrow>
         card {draw. draw < 10 * 60 * m \<and> Intn (10 * 60) draw = j} = m)
   \<and> (\<forall>raw'. getExpireTime now raw = getExpireTime now raw'
                 \<longleftrightarrow> Intn (10 * 60) raw = Intn (10 * 60) raw')
   \<and> ((case files fc (GenFileId (Namespace file) (Group file) (FileName file)) of
          None \<Rightarrow> True
        | Some storedEntry \<Rightarrow> Empty storedEntry \<or> Version storedEntry < FileVersion file) \<longrightarrow>
        map_option ExpireTime
          (files (Put now raw file fc) (GenFileId (Namespace file) (Group file) (FileName file)))
        = Some (getExpireTime now raw))
   \<and> (\<forall>loaded. files fc (GenFileId namespace grp fileName) = None
          \<and> storage namespace grp fileName = (Some loaded, None) \<longrightarrow>
        (\<exists>entry. fst (GetOrLoadIfAbsent storage now raw namespace grp fileName fc) = Inr entry
           \<and> files (snd (GetOrLoadIfAbsent storage now raw namespace grp fileName fc))
                 (GenFileId namespace grp fileName) = Some entry
           \<and> \<not> Empty entry \<and> ExpireTime entry = getExpireTime now raw))
   \<and> (files fc (GenFileId namespace grp fileName) = None
          \<and> storage namespace grp fileName = (None, None) \<longrightarrow>
        (\<exists>entry. fst (GetOrLoadIfAbsent storage now raw namespace grp fileName fc) = Inr entry
           \<and> files (snd (GetOrLoadIfAbsent storage now raw namespace grp fileName fc))
                 (GenFileId namespace grp fileName) = Some entry
           \<and> Empty entry \<and> ExpireTime entry = getExpireTime now raw))
   \<and> (\<forall>fileId entry. files (Put now raw file fc) fileId = Some entry
          \<and> files fc fileId \<noteq> Some entry \<longrightarrow> ExpireTime entry = getExpireTime now raw)
   \<and> (\<forall>fileId entry.
          files (snd (GetOrLoadIfAbsent storage now raw namespace grp fileName fc)) fileId = Some entry
          \<and> files fc fileId \<noteq> Some entry \<longrightarrow> ExpireTime entry = getExpireTime now raw)"
proof -
  note e = getExpireTime_jitter [of now raw]
  note j = Intn_range [of raw]
  have b: "0 \<le> Intn (10 * 60) raw * Second" "Intn (10 * 60) raw * Second < 10 * Minute"
    using j by (simp_all add: Minute_def Second_def)
  have t: "60 * Minute \<le> getExpireTime now raw - now" "getExpireTime now raw - now < 70 * Minute"
    using b unfolding e by simp_all
  have r: "\<forall>j. 0 \<le> j \<and> j < 10 * 60 \<longrightarrow> Intn (10 * 60) (nat j) = j"
    using Intn_reached by blast
  note p = Intn_period [of raw]
  have u: "\<forall>j m. 0 \<le> j \<and> j < 10 * 60 \<longrightarrow>
         card {draw. draw < 10 * 60 * m \<and> Intn (10 * 60) draw = j} = m"
    using Intn_equidistributed by blast
  have s: "\<forall>raw'. getExpireTime now raw = getExpireTime now raw'
                 \<longleftrightarrow> Intn (10 * 60) raw = Intn (10 * 60) raw'"
    using getExpireTime_same by blast
  have a: "(case files fc (GenFileId (Namespace file) (Group file) (FileName file)) of
          None \<Rightarrow> True
        | Some storedEntry \<Rightarrow> Empty storedEntry \<or> Version storedEntry < FileVersion file) \<longrightarrow>
        map_option ExpireTime
          (files (Put now raw file fc) (GenFileId (Namespace file) (Group file) (FileName file)))
        = Some (getExpireTime now raw)"
    using Put_accepted_expiry by blast
  have lr: "\<forall>loaded. files fc (GenFileId namespace grp fileName) = None
          \<and> storage namespace grp fileName = (Some loaded, None) \<longrightarrow>
        (\<exists>entry. fst (GetOrLoadIfAbsent storage now raw namespace grp fileName fc) = Inr entry
           \<and> files (snd (GetOrLoadIfAbsent storage now raw namespace grp fileName fc))
                 (GenFileId namespace grp fileName) = Some entry
           \<and> \<not> Empty entry \<and> ExpireTime entry = getExpireTime now raw)"
    using load_record_expiry by blast
  have la: "files fc (GenFileId namespace grp fileName) = None
          \<and> storage namespace grp fileName = (None, None) \<longrightarrow>
        (\<exists>entry. fst (GetOrLoadIfAbsent storage now raw namespace grp fileName fc) = Inr entry
           \<and> files (snd (GetOrLoadIfAbsent storage now raw namespace grp fileName fc))
                 (GenFileId namespace grp fileName) = Some entry
           \<and> Empty entry \<and> ExpireTime entry = getExpireTime now raw)"
    using load_absent_expiry by blast
  note pf = Put_fresh_expiry [of now raw "file" fc]
  note lf = load_fresh_expiry [of storage now raw namespace grp fileName fc]
  show ?thesis
    using e j b t r p u s a lr la pf lf by (intro conjI)
qed

theorem C5_expiry_jitter_witness:
  "getExpireTime 0 34 = 60 * Minute + 34 * Second
   \<and> Intn (10 * 60) (34 + 10 * 60) = 34
   \<and> getExpireTime 0 34 \<noteq> getExpireTime 0 35
   \<and> card {draw. draw < 10 * 60 * 3 \<and> Intn (10 * 60) draw = 34} = 3
   \<and> map_option ExpireTime
        (files (Put 0 34
                  \<lparr>Namespace = ''n'', Group = ''g'', FileName = ''f'',
                   FileContent = ''a'', FileMd5 = ''ma'', FileVersion = 1\<rparr> NewFileCache)
           (GenFileId ''n'' ''g'' ''f'')) = Some (getExpireTime 0 34)
   \<and> map_option ExpireTime
        (files (snd (GetOrLoadIfAbsent
                  (\<lambda>a b c. (Some \<lparr>Namespace = ''n'', Group = ''g'', FileName = ''f'',
                     FileContent = ''a'', FileMd5 = ''ma'', FileVersion = 1\<rparr>, None))
                  0 34 ''n'' ''g'' ''f'' NewFileCache))
           (GenFileId ''n'' ''g'' ''f'')) = Some (getExpireTime 0 34)
   \<and> map_option ExpireTime
        (files (snd (GetOrLoadIfAbsent (\<lambda>a b c. (None, None)) 0 34 ''n'' ''g'' ''f'' NewFileCache))
           (GenFileId ''n'' ''g'' ''f'')) = Some (getExpireTime 0 34)"
proof -
  let ?rel = "\<lparr>Namespace = ''n'', Group = ''g'', FileName = ''f'',
                   FileContent = ''a'', FileMd5 = ''ma'', FileVersion = 1\<rparr>"
  let ?k = "GenFileId ''n'' ''g'' ''f''"
  let ?rec = "\<lambda>a b c :: string. (Some ?rel, None :: error option)"
  let ?abs = "\<lambda>a b c :: string. (None :: ConfigFileRelease option, None :: error option)"
  note t = C5_expiry_jitter [where now = 0 and raw = 34 and ?file = ?rel
      and fc = NewFileCache and namespace = "''n''" and grp = "''g''" and fileName = "''f''"
      and storage = ?rec]
  note t' = C5_expiry_jitter [where now = 0 and raw = 34 and ?file = ?rel
      and fc = NewFileCache and namespace = "''n''" and grp = "''g''" and fileName = "''f''"
      and storage = ?abs]
  have n: "files NewFileCache ?k = None"
    by (simp add: NewFileCache_def)
  note d1 = t [THEN conjunct2]
  note d2 = d1 [THEN conjunct2]
  note d3 = d2 [THEN conjunct2]
  note d4 = d3 [THEN conjunct2]
  note d5 = d4 [THEN conjunct2]
  note d6 = d5 [THEN conjunct2]
  note d7 = d6 [THEN conjunct2]
  note d8 = d7 [THEN conjunct2]
  note d9 = d8 [THEN conjunct2]
  note d10 = d9 [THEN conjunct2]
  note d11 = d10 [THEN conjunct2]
  note d12 = d11 [THEN conjunct2]
  note e = t [THEN conjunct1]
  note r = d7 [THEN conjunct1]
  note per = d8 [THEN conjunct1]
  note u = d9 [THEN conjunct1]
  note sm = d10 [THEN conjunct1]
  note ap = d11 [THEN conjunct1]
  note rc = d12 [THEN conjunct1]
  note ab = t' [THEN conjunct2, THEN conjunct2, THEN conjunct2, THEN conjunct2, THEN conjunct2,
      THEN conjunct2, THEN conjunct2, THEN conjunct2, THEN conjunct2, THEN conjunct2,
      THEN conjunct2, THEN conjunct2, THEN conjunct2, THEN conjunct1]
  from r [THEN spec, of 34] have i34: "Intn (10 * 60) 34 = 34" by simp
  from r [THEN spec, of 35] have i35: "Intn (10 * 60) 35 = 35" by simp
  from e i34 have a: "getExpireTime 0 34 = 60 * Minute + 34 * Second"
    by simp
  from per i34 have b: "Intn (10 * 60) (34 + 10 * 60) = 34"
    by simp
  from sm [THEN spec, of 35] i34 i35 have c: "getExpireTime 0 34 \<noteq> getExpireTime 0 35"
    by simp
  from u [THEN spec, THEN spec, of 34 3]
  have d: "card {draw. draw < 10 * 60 * 3 \<and> Intn (10 * 60) draw = 34} = 3"
    by simp
  have acc: "case files NewFileCache (GenFileId (Namespace ?rel) (Group ?rel) (FileName ?rel)) of
          None \<Rightarrow> True
        | Some storedEntry \<Rightarrow> Empty storedEntry \<or> Version storedEntry < FileVersion ?rel"
    using n by simp
  from ap [THEN mp, OF acc]
  have p: "map_option ExpireTime (files (Put 0 34 ?rel NewFileCache) ?k)
      = Some (getExpireTime 0 34)"
    by simp
  have sr: "files NewFileCache ?k = None \<and> ?rec ''n'' ''g'' ''f'' = (Some ?rel, None)"
    using n by simp
  from rc [THEN spec, THEN mp, OF sr] obtain entry where
    "files (snd (GetOrLoadIfAbsent ?rec 0 34 ''n'' ''g'' ''f'' NewFileCache)) ?k = Some entry"
    "ExpireTime entry = getExpireTime 0 34"
    by blast
  then have lr: "map_option ExpireTime
      (files (snd (GetOrLoadIfAbsent ?rec 0 34 ''n'' ''g'' ''f'' NewFileCache)) ?k)
      = Some (getExpireTime 0 34)"
    by simp
  have sa: "files NewFileCache ?k = None \<and> ?abs ''n'' ''g'' ''f'' = (None, None)"
    using n by simp
  from ab [THEN mp, OF sa] obtain entry' where
    "files (snd (GetOrLoadIfAbsent ?abs 0 34 ''n'' ''g'' ''f'' NewFileCache)) ?k = Some entry'"
    "ExpireTime entry' = getExpireTime 0 34"
    by blast
  then have la: "map_option ExpireTime
      (files (snd (GetOrLoadIfAbsent ?abs 0 34 ''n'' ''g'' ''f'' NewFileCache)) ?k)
      = Some (getExpireTime 0 34)"
    by simp
  from a b c d p lr la show ?thesis by (intro conjI)
qed

subsection \<open>Put, Get and Remove\<close>

text \<open>
  C1: \<open>Put\<close> stores a new entry, with a newly computed expiry, exactly when the key has no
  entry, or the stored entry is a negative one, or the record's version is greater than the
  stored one; otherwise the map, and with it the stored entry and its expiry, stays as it
  is and only \<open>putCnt\<close> moves. On a key without entry, version 1 with content \<open>a\<close> and then
  version 1 with content \<open>b\<close> leaves \<open>a\<close>, and version 2 with content \<open>b\<close> after them
  gives \<open>b\<close>.
\<close>

theorem C1_Put_overwrite:
  "Put now raw file fc =
     (if (case files fc (GenFileId (Namespace file) (Group file) (FileName file)) of
            None \<Rightarrow> True
          | Some storedEntry \<Rightarrow> Empty storedEntry \<or> Version storedEntry < FileVersion file)
      then fc\<lparr>putCnt := putCnt fc + 1,
              files := (files fc)(GenFileId (Namespace file) (Group file) (FileName file) \<mapsto>
                \<lparr>Content = FileContent file, Md5 = FileMd5 file, Version = FileVersion file,
                 ExpireTime = getExpireTime now raw, Empty = False\<rparr>)\<rparr>
      else fc\<lparr>putCnt := putCnt fc + 1\<rparr>)
   \<and> (files fc (GenFileId namespace grp fileName) = None \<longrightarrow>
        map_option Content
          (Get (Put now2 raw2
                  \<lparr>Namespace = namespace, Group = grp, FileName = fileName,
                   FileContent = ''b'', FileMd5 = md5b, FileVersion = 1\<rparr>
                  (Put now1 raw1
                     \<lparr>Namespace = namespace, Group = grp, FileName = fileName,
                      FileContent = ''a'', FileMd5 = md5a, FileVersion = 1\<rparr> fc))
             namespace grp fileName) = Some ''a''
        \<and> map_option Content
          (Get (Put now3 raw3
                  \<lparr>Namespace = namespace, Group = grp, FileName = fileName,
                   FileContent = ''b'', FileMd5 = md5b, FileVersion = 2\<rparr>
                  (Put now2 raw2
                     \<lparr>Namespace = namespace, Group = grp, FileName = fileName,
                      FileContent = ''b'', FileMd5 = md5b, FileVersion = 1\<rparr>
                     (Put now1 raw1
                        \<lparr>Namespace = namespace, Group = grp, FileName = fileName,
                         FileContent = ''a'', FileMd5 = md5a, FileVersion = 1\<rparr> fc)))
             namespace grp fileName) = Some ''b'')"
  by (simp add: Put_def Get_def newEntry_def Let_def split: option.splits)

theorem C1_Put_overwrite_witness:
  "files NewFileCache (GenFileId ''n'' ''g'' ''f'') = None
   \<and> map_option Content
       (Get (Put 20 7
               \<lparr>Namespace = ''n'', Group = ''g'', FileName = ''f'',
                FileContent = ''b'', FileMd5 = ''mb'', FileVersion = 1\<rparr>
               (Put 10 5
                  \<lparr>Namespace = ''n'', Group = ''g'', FileName = ''f'',
                   FileContent = ''a'', FileMd5 = ''ma'', FileVersion = 1\<rparr> NewFileCache))
          ''n'' ''g'' ''f'') = Some ''a''
   \<and> map_option Content
       (Get (Put 30 9
               \<lparr>Namespace = ''n'', Group = ''g'', FileName = ''f'',
                FileContent = ''b'', FileMd5 = ''mb'', FileVersion = 2\<rparr>
               (Put 20 7
                  \<lparr>Namespace = ''n'', Group = ''g'', FileName = ''f'',
                   FileContent = ''b'', FileMd5 = ''mb'', FileVersion = 1\<rparr>
                  (Put 10 5
                     \<lparr>Namespace = ''n'', Group = ''g'', FileName = ''f'',
                      FileContent = ''a'', FileMd5 = ''ma'', FileVersion = 1\<rparr> NewFileCache)))
          ''n'' ''g'' ''f'') = Some ''b''"
proof -
  have h: "files NewFileCache (GenFileId ''n'' ''g'' ''f'') = None"
    by (simp add: NewFileCache_def)
  note t = C1_Put_overwrite [where fc = NewFileCache and namespace = "''n''" and grp = "''g''"
      and fileName = "''f''" and ?now1.0 = 10 and ?raw1.0 = 5 and ?now2.0 = 20 and ?raw2.0 = 7
      and ?now3.0 = 30 and ?raw3.0 = 9 and md5a = "''ma''" and md5b = "''mb''"]
  from h t [THEN conjunct2, THEN mp, OF h] show ?thesis by blast
qed

text \<open>
  C7: \<open>Remove\<close> deletes the entry of its key whatever the cache holds, leaves the map as it
  is when the key has no entry, has no error result, and \<open>Get\<close> of the key finds nothing
  afterwards.
\<close>

theorem C7_Remove_deletes:
  "Get (Remove namespace grp fileName fc) namespace grp fileName = None
   \<and> files (Remove namespace grp fileName fc) = (files fc)(GenFileId namespace grp fileName := None)
   \<and> (files fc (GenFileId namespace grp fileName) = None
        \<longrightarrow> files (Remove namespace grp fileName fc) = files fc)"
  by (auto simp add: Remove_def Get_def)

theorem C7_Remove_deletes_witness:
  "Get (Remove ''n'' ''g'' ''f'' NewFileCache) ''n'' ''g'' ''f'' = None
   \<and> files NewFileCache (GenFileId ''n'' ''g'' ''f'') = None
   \<and> files (Remove ''n'' ''g'' ''f'' NewFileCache) = files NewFileCache"
  using C7_Remove_deletes [of "''n''" "''g''" "''f''" NewFileCache]
  by (simp add: NewFileCache_def)

subsection \<open>Loading on a miss\<close>

text \<open>
  C2: when the storage returns an error on a miss, \<open>GetOrLoadIfAbsent\<close> returns that
  error, the map of entries is what it was, and a second call for the key invokes the
  storage again.
\<close>

theorem C2_storage_error_not_cached:
  assumes "files fc (GenFileId namespace grp fileName) = None"
    and "storage namespace grp fileName = (file, Some err)"
  shows "fst (GetOrLoadIfAbsent storage now raw namespace grp fileName fc) = Inl err
    \<and> files (snd (GetOrLoadIfAbsent storage now raw namespace grp fileName fc)) = files fc
    \<and> loads (snd (GetOrLoadIfAbsent storage now raw namespace grp fileName fc))
        = loads fc @ [(namespace, grp, fileName)]
    \<and> loads (snd (GetOrLoadIfAbsent storage' now' raw' namespace grp fileName
                    (snd (GetOrLoadIfAbsent storage now raw namespace grp fileName fc))))
        = loads fc @ [(namespace, grp, fileName), (namespace, grp, fileName)]"
  using assms
  by (simp add: GetOrLoadIfAbsent_def Let_def split: option.splits prod.splits)

theorem C2_storage_error_not_cached_witness:
  "files NewFileCache (GenFileId ''n'' ''g'' ''f'') = None
   \<and> fst (GetOrLoadIfAbsent (\<lambda>a b c. (None, Some (Error ''down''))) 10 5 ''n'' ''g'' ''f''
           NewFileCache) = Inl (Error ''down'')
   \<and> files (snd (GetOrLoadIfAbsent (\<lambda>a b c. (None, Some (Error ''down''))) 10 5 ''n'' ''g'' ''f''
           NewFileCache)) = Map.empty
   \<and> loads (snd (GetOrLoadIfAbsent (\<lambda>a b c. (None, None)) 20 7 ''n'' ''g'' ''f''
        (snd (GetOrLoadIfAbsent (\<lambda>a b c. (None, Some (Error ''down''))) 10 5 ''n'' ''g'' ''f''
           NewFileCache))))
      = [(''n'', ''g'', ''f''), (''n'', ''g'', ''f'')]"
  using C2_storage_error_not_cached [where fc = NewFileCache and namespace = "''n''"
      and grp = "''g''" and fileName = "''f''" and ?file = None and err = "Error ''down''"
      and storage = "\<lambda>a b c. (None, Some (Error ''down''))" and now = 10 and raw = 5
      and storage' = "\<lambda>a b c. (None, None)" and now' = 20 and raw' = 7]
  by (simp add: NewFileCache_def)

text \<open>
  C3: when the storage has no record and no error on a miss, \<open>GetOrLoadIfAbsent\<close> stores
  and returns the negative entry (empty content, \<open>Empty\<close> set, expiry from
  \<open>getExpireTime\<close>) after one storage invocation; a later call on any cache that still
  holds this entry returns it and invokes the storage no more.
\<close>

theorem C3_absent_cached_as_negative:
  assumes "files fc (GenFileId namespace grp fileName) = None"
    and "storage namespace grp fileName = (None, None)"
    and "GetOrLoadIfAbsent storage now raw namespace grp fileName fc = (r, fc')"
  shows "r = Inr \<lparr>Content = '''', Md5 = '''', Version = 0,
                  ExpireTime = getExpireTime now raw, Empty = True\<rparr>
    \<and> files fc' = (files fc)(GenFileId namespace grp fileName \<mapsto>
          \<lparr>Content = '''', Md5 = '''', Version = 0,
           ExpireTime = getExpireTime now raw, Empty = True\<rparr>)
    \<and> loads fc' = loads fc @ [(namespace, grp, fileName)]
    \<and> loadCnt fc' = loadCnt fc + 1
    \<and> (\<forall>fc''. files fc'' (GenFileId namespace grp fileName) = files fc' (GenFileId namespace grp fileName) \<longrightarrow>
          fst (GetOrLoadIfAbsent storage' now' raw' namespace grp fileName fc'') = r
          \<and> loads (snd (GetOrLoadIfAbsent storage' now' raw' namespace grp fileName fc'')) = loads fc''
          \<and> loadCnt (snd (GetOrLoadIfAbsent storage' now' raw' namespace grp fileName fc'')) = loadCnt fc''
          \<and> files (snd (GetOrLoadIfAbsent storage' now' raw' namespace grp fileName fc'')) = files fc'')"
  using assms
  by (auto simp add: GetOrLoadIfAbsent_def Let_def split: option.splits prod.splits)

theorem C3_absent_cached_as_negative_witness:
  "files NewFileCache (GenFileId ''n'' ''g'' ''f'') = None
   \<and> fst (GetOrLoadIfAbsent (\<lambda>a b c. (None, None)) 10 5 ''n'' ''g'' ''f'' NewFileCache)
       = Inr \<lparr>Content = '''', Md5 = '''', Version = 0,
              ExpireTime = getExpireTime 10 5, Empty = True\<rparr>
   \<and> loads (snd (GetOrLoadIfAbsent (\<lambda>a b c. (None, None)) 10 5 ''n'' ''g'' ''f'' NewFileCache))
       = [(''n'', ''g'', ''f'')]
   \<and> fst (GetOrLoadIfAbsent (\<lambda>a b c. (None, Some (Error ''down''))) 20 7 ''n'' ''g'' ''f''
            (snd (GetOrLoadIfAbsent (\<lambda>a b c. (None, None)) 10 5 ''n'' ''g'' ''f'' NewFileCache)))
       = Inr \<lparr>Content = '''', Md5 = '''', Version = 0,
              ExpireTime = getExpireTime 10 5, Empty = True\<rparr>
   \<and> loads (snd (GetOrLoadIfAbsent (\<lambda>a b c. (None, Some (Error ''down''))) 20 7 ''n'' ''g'' ''f''
            (snd (GetOrLoadIfAbsent (\<lambda>a b c. (None, None)) 10 5 ''n'' ''g'' ''f'' NewFileCache))))
       = [(''n'', ''g'', ''f'')]"
proof -
  let ?st = "\<lambda>a b c. (None :: ConfigFileRelease option, None :: error option)"
  let ?st' = "\<lambda>a b c. (None :: ConfigFileRelease option, Some (Error ''down''))"
  let ?p = "GetOrLoadIfAbsent ?st 10 5 ''n'' ''g'' ''f'' NewFileCache"
  have h1: "files NewFileCache (GenFileId ''n'' ''g'' ''f'') = None"
    by (simp add: NewFileCache_def)
  have h2: "?st ''n'' ''g'' ''f'' = (None, None)"
    by simp
  have h3: "?p = (fst ?p, snd ?p)"
    by simp
  note t = C3_absent_cached_as_negative [OF h1 h2 h3, where storage' = ?st'
      and now' = 20 and raw' = 7]
  have l0: "loads NewFileCache = []"
    by (simp add: NewFileCache_def)
  from t have a: "fst ?p = Inr \<lparr>Content = '''', Md5 = '''', Version = 0,
              ExpireTime = getExpireTime 10 5, Empty = True\<rparr>"
    and b: "loads (snd ?p) = loads NewFileCache @ [(''n'', ''g'', ''f'')]"
    and c: "fst (GetOrLoadIfAbsent ?st' 20 7 ''n'' ''g'' ''f'' (snd ?p)) = fst ?p"
    and d: "loads (snd (GetOrLoadIfAbsent ?st' 20 7 ''n'' ''g'' ''f'' (snd ?p))) = loads (snd ?p)"
    by blast+
  from h1 a b c d l0 show ?thesis by simp
qed

text \<open>
  C9: an entry that is in the map is returned by \<open>Get\<close> and by \<open>GetOrLoadIfAbsent\<close>
  also when its \<open>ExpireTime\<close> lies before the time of the call; the call leaves it in
  the map and invokes no storage.
\<close>

theorem C9_hits_ignore_expiry:
  assumes "files fc (GenFileId namespace grp fileName) = Some entry"
    and "ExpireTime entry < now"
  shows "Get fc namespace grp fileName = Some entry
    \<and> fst (GetOrLoadIfAbsent storage now raw namespace grp fileName fc) = Inr entry
    \<and> files (snd (GetOrLoadIfAbsent storage now raw namespace grp fileName fc)) = files fc
    \<and> loads (snd (GetOrLoadIfAbsent storage now raw namespace grp fileName fc)) = loads fc"
  using assms
  by (simp add: Get_def GetOrLoadIfAbsent_def Let_def)

theorem C9_hits_ignore_expiry_witness:
  "files (NewFileCache\<lparr>files := [GenFileId ''n'' ''g'' ''f'' \<mapsto>
            \<lparr>Content = ''x'', Md5 = ''m'', Version = 1, ExpireTime = 5, Empty = False\<rparr>]\<rparr>)
       (GenFileId ''n'' ''g'' ''f'')
     = Some \<lparr>Content = ''x'', Md5 = ''m'', Version = 1, ExpireTime = 5, Empty = False\<rparr>
   \<and> ExpireTime \<lparr>Content = ''x'', Md5 = ''m'', Version = 1, ExpireTime = 5, Empty = False\<rparr>
       < (10 :: int)
   \<and> Get (NewFileCache\<lparr>files := [GenFileId ''n'' ''g'' ''f'' \<mapsto>
            \<lparr>Content = ''x'', Md5 = ''m'', Version = 1, ExpireTime = 5, Empty = False\<rparr>]\<rparr>)
         ''n'' ''g'' ''f''
     = Some \<lparr>Content = ''x'', Md5 = ''m'', Version = 1, ExpireTime = 5, Empty = False\<rparr>
   \<and> fst (GetOrLoadIfAbsent (\<lambda>a b c. (None, None)) 10 0 ''n'' ''g'' ''f''
         (NewFileCache\<lparr>files := [GenFileId ''n'' ''g'' ''f'' \<mapsto>
            \<lparr>Content = ''x'', Md5 = ''m'', Version = 1, ExpireTime = 5, Empty = False\<rparr>]\<rparr>))
     = Inr \<lparr>Content = ''x'', Md5 = ''m'', Version = 1, ExpireTime = 5, Empty = False\<rparr>"
proof -
  let ?e = "\<lparr>Content = ''x'', Md5 = ''m'', Version = 1, ExpireTime = 5, Empty = False\<rparr>"
  let ?fc = "NewFileCache\<lparr>files := [GenFileId ''n'' ''g'' ''f'' \<mapsto> ?e]\<rparr>"
  have h1: "files ?fc (GenFileId ''n'' ''g'' ''f'') = Some ?e"
    by simp
  have h2: "ExpireTime ?e < (10 :: int)"
    by simp
  from h1 h2 C9_hits_ignore_expiry [OF h1 h2, where storage = "\<lambda>a b c. (None, None)" and raw = 0]
  show ?thesis by blast
qed

subsection \<open>The sweep of expired entries\<close>

lemma expiredAt_upd_other:
  "fst v \<noteq> k \<Longrightarrow> expiredAt (m(k := x)) v = expiredAt m v"
  by (simp add: expiredAt_def)

lemma filter_expiredAt_upd:
  assumes "k \<notin> fst ` set vs"
  shows "filter (expiredAt (m(k := x))) vs = filter (expiredAt m) vs"
proof (rule filter_cong [OF refl])
  fix v
  assume "v \<in> set vs"
  with assms have "fst v \<noteq> k" by force
  then show "expiredAt (m(k := x)) v = expiredAt m v"
    by (rule expiredAt_upd_other)
qed

lemma rangeClear_spec:
  "distinct (map fst visits) \<Longrightarrow>
   rangeClear visits m c =
     ((\<lambda>k. if \<exists>now. (k, now) \<in> set visits \<and> expiredAt m (k, now) then None else m k),
      c + of_nat (length (filter (expiredAt m) visits)))"
proof (induction visits arbitrary: m c)
  case Nil
  then show ?case by simp
next
  case (Cons v rest)
  obtain k now where v: "v = (k, now)" by (cases v)
  from Cons.prems v have d: "distinct (map fst rest)" and nk: "k \<notin> fst ` set rest"
    by auto
  show ?case
  proof (cases "m k")
    case None
    then have ne: "\<not> expiredAt m (k, now)" by (simp add: expiredAt_def)
    have "rangeClear (v # rest) m c = rangeClear rest m c"
      using None v by simp
    also note Cons.IH [OF d]
    finally show ?thesis
      using None ne v by (auto simp add: fun_eq_iff expiredAt_def)
  next
    case (Some entry)
    show ?thesis
    proof (cases "now > ExpireTime entry")
      case True
      then have ex: "expiredAt m (k, now)" using Some by (simp add: expiredAt_def)
      have "rangeClear (v # rest) m c = rangeClear rest (m(k := None)) (c + 1)"
        using Some True v by simp
      also note Cons.IH [OF d]
      finally have r: "rangeClear (v # rest) m c =
          ((\<lambda>k'. if \<exists>now'. (k', now') \<in> set rest \<and> expiredAt (m(k := None)) (k', now')
                 then None else (m(k := None)) k'),
           c + 1 + of_nat (length (filter (expiredAt (m(k := None))) rest)))" .
      have f: "filter (expiredAt (m(k := None))) rest = filter (expiredAt m) rest"
        using nk by (rule filter_expiredAt_upd)
      have m: "(\<lambda>k'. if \<exists>now'. (k', now') \<in> set rest \<and> expiredAt (m(k := None)) (k', now')
                 then None else (m(k := None)) k')
             = (\<lambda>k'. if \<exists>now'. (k', now') \<in> set (v # rest) \<and> expiredAt m (k', now')
                 then None else m k')"
      proof
        fix k'
        show "(if \<exists>now'. (k', now') \<in> set rest \<and> expiredAt (m(k := None)) (k', now')
                 then None else (m(k := None)) k')
             = (if \<exists>now'. (k', now') \<in> set (v # rest) \<and> expiredAt m (k', now')
                 then None else m k')"
        proof (cases "k' = k")
          case True
          then show ?thesis using ex v nk by force
        next
          case False
          then show ?thesis using v by (auto simp add: expiredAt_upd_other)
        qed
      qed
      show ?thesis
        unfolding r f m using ex v by simp
    next
      case False
      then have ne: "\<not> expiredAt m (k, now)" using Some by (simp add: expiredAt_def)
      have "rangeClear (v # rest) m c = rangeClear rest m c"
        using Some False v by simp
      also note Cons.IH [OF d]
      finally show ?thesis
        using Some ne v nk by (auto simp add: fun_eq_iff)
    qed
  qed
qed

lemma expiredAt_Some:
  "m k = Some entry \<Longrightarrow> expiredAt m (k, now) = (now > ExpireTime entry)"
  by (simp add: expiredAt_def)

lemma expiredAt_dom: "expiredAt m (k, now) \<Longrightarrow> k \<in> dom m"
  by (cases "m k") (simp_all add: expiredAt_def domIff)

lemma tick_unfold:
  assumes "distinct (map fst visits)"
  shows "clearExpireEntryTick visits fc =
     (let n = (of_nat (length (filter (expiredAt (files fc)) visits)) :: 64 word);
          m = (\<lambda>k. if \<exists>now. (k, now) \<in> set visits \<and> expiredAt (files fc) (k, now)
                   then None else files fc k)
      in fc\<lparr>files := m,
            logged := (if 0 <s n then logged fc @ [ClearExpired n] else logged fc),
            expireCnt := expireCnt fc + n\<rparr>)"
  by (simp add: clearExpireEntryTick_def rangeClear_spec [OF assms] Let_def)

lemma removed_keys:
  "dom m - dom (\<lambda>k. if \<exists>now. (k, now) \<in> set visits \<and> expiredAt m (k, now) then None else m k)
     = fst ` set (filter (expiredAt m) visits)"
  (is "?L = ?R")
proof (rule set_eqI)
  fix k
  show "k \<in> ?L \<longleftrightarrow> k \<in> ?R"
  proof
    assume "k \<in> ?L"
    then have "\<exists>now. (k, now) \<in> set visits \<and> expiredAt m (k, now)"
      by (auto simp add: domIff split: if_splits)
    then obtain now where "(k, now) \<in> set visits" "expiredAt m (k, now)" by blast
    then have "(k, now) \<in> set (filter (expiredAt m) visits)" by simp
    then show "k \<in> ?R" by (rule image_eqI [rotated]) simp
  next
    assume "k \<in> ?R"
    then obtain v where v: "v \<in> set visits" "expiredAt m v" "k = fst v" by auto
    then have e: "(k, snd v) \<in> set visits" "expiredAt m (k, snd v)" by simp_all
    from e(2) have "k \<in> dom m" by (rule expiredAt_dom)
    moreover from e have "\<exists>now. (k, now) \<in> set visits \<and> expiredAt m (k, now)" by blast
    ultimately show "k \<in> ?L" by (simp add: domIff)
  qed
qed

lemma removed_count:
  assumes "distinct (map fst visits)"
  shows "card (dom m - dom (\<lambda>k. if \<exists>now. (k, now) \<in> set visits \<and> expiredAt m (k, now)
                              then None else m k))
     = length (filter (expiredAt m) visits)"
proof -
  have "distinct (map fst (filter (expiredAt m) visits))"
    using assms by (rule distinct_map_filter)
  then have "card (set (map fst (filter (expiredAt m) visits)))
      = length (map fst (filter (expiredAt m) visits))"
    by (rule distinct_card)
  then show ?thesis
    by (simp add: removed_keys)
qed

lemma visit_unique:
  "distinct (map fst visits) \<Longrightarrow> (k, a) \<in> set visits \<Longrightarrow> (k, b) \<in> set visits \<Longrightarrow> a = b"
  by (rule eq_key_imp_eq_value)

text \<open>
  C6: a tick visits every entry of the cache once; an entry is deleted exactly when the
  clock reading of its visit is after its \<open>ExpireTime\<close>, otherwise it stays; \<open>expireCnt\<close>
  grows by the number \<open>n\<close> of entries deleted in the tick; a line is logged only if
  at least one entry was deleted.
\<close>

theorem C6_sweep_tick:
  assumes "distinct (map fst visits)"
    and "fst ` set visits = dom (files fc)"
    and "fc' = clearExpireEntryTick visits fc"
    and "n = card (dom (files fc) - dom (files fc'))"
  shows "(\<forall>fileId entry. files fc fileId = Some entry \<longrightarrow>
            (\<exists>now. (fileId, now) \<in> set visits
               \<and> files fc' fileId = (if now > ExpireTime entry then None else Some entry)))
    \<and> dom (files fc') \<subseteq> dom (files fc)
    \<and> n = length (filter (expiredAt (files fc)) visits)
    \<and> expireCnt fc' = expireCnt fc + of_nat n
    \<and> logged fc' = (if 0 <s (of_nat n :: 64 word) then logged fc @ [ClearExpired (of_nat n)]
                     else logged fc)
    \<and> (logged fc' \<noteq> logged fc \<longrightarrow> 0 < n)"
proof -
  let ?m = "\<lambda>k. if \<exists>now. (k, now) \<in> set visits \<and> expiredAt (files fc) (k, now)
                 then None else files fc k"
  let ?len = "length (filter (expiredAt (files fc)) visits)"
  note u = tick_unfold [OF assms(1), of fc]
  have fm: "files fc' = ?m"
    using u assms(3) by (simp add: Let_def)
  have n: "n = ?len"
    using assms(4) removed_count [OF assms(1), of "files fc"] by (simp add: fm)
  have one: "\<forall>fileId entry. files fc fileId = Some entry \<longrightarrow>
            (\<exists>now. (fileId, now) \<in> set visits
               \<and> files fc' fileId = (if now > ExpireTime entry then None else Some entry))"
  proof (intro allI impI)
    fix fileId entry
    assume s: "files fc fileId = Some entry"
    then have "fileId \<in> dom (files fc)" by (simp add: domIff)
    with assms(2) have "fileId \<in> fst ` set visits" by simp
    then obtain v where "v \<in> set visits" "fileId = fst v" by blast
    then have v: "(fileId, snd v) \<in> set visits" by simp
    have ex: "(\<exists>now. (fileId, now) \<in> set visits \<and> expiredAt (files fc) (fileId, now))
        = (snd v > ExpireTime entry)"
    proof
      assume "\<exists>now. (fileId, now) \<in> set visits \<and> expiredAt (files fc) (fileId, now)"
      then obtain now where w: "(fileId, now) \<in> set visits" "expiredAt (files fc) (fileId, now)"
        by blast
      from visit_unique [OF assms(1) w(1) v] w(2) s show "snd v > ExpireTime entry"
        by (simp add: expiredAt_Some)
    next
      assume "snd v > ExpireTime entry"
      with s have "expiredAt (files fc) (fileId, snd v)" by (simp add: expiredAt_Some)
      with v show "\<exists>now. (fileId, now) \<in> set visits \<and> expiredAt (files fc) (fileId, now)"
        by blast
    qed
    have "files fc' fileId = (if snd v > ExpireTime entry then None else Some entry)"
      unfolding fm ex using s by simp
    with v show "\<exists>now. (fileId, now) \<in> set visits
               \<and> files fc' fileId = (if now > ExpireTime entry then None else Some entry)"
      by blast
  qed
  have sub: "dom (files fc') \<subseteq> dom (files fc)"
  proof
    fix k assume "k \<in> dom (files fc')"
    then show "k \<in> dom (files fc)"
      unfolding fm by (simp add: domIff split: if_splits)
  qed
  have cnt: "expireCnt fc' = expireCnt fc + of_nat n"
    using u assms(3) n by (simp add: Let_def)
  have lg: "logged fc' = (if 0 <s (of_nat n :: 64 word) then logged fc @ [ClearExpired (of_nat n)]
                     else logged fc)"
    using u assms(3) n by (simp add: Let_def)
  have pos: "logged fc' \<noteq> logged fc \<longrightarrow> 0 < n"
  proof
    assume d: "logged fc' \<noteq> logged fc"
    show "0 < n"
    proof (rule ccontr)
      assume "\<not> 0 < n"
      then have "n = 0" by simp
      with lg d show False by simp
    qed
  qed
  show ?thesis
    using one sub n cnt lg pos by (intro conjI)
qed

theorem C6_sweep_tick_witness:
  "distinct (map fst [(''a'', 10 :: int), (''b'', 11)])
   \<and> files (clearExpireEntryTick [(''a'', 10), (''b'', 11)]
        (NewFileCache\<lparr>files :=
           [''a'' \<mapsto> \<lparr>Content = ''x'', Md5 = ''m'', Version = 1, ExpireTime = 5, Empty = False\<rparr>,
            ''b'' \<mapsto> \<lparr>Content = '''', Md5 = '''', Version = 0, ExpireTime = 11, Empty = True\<rparr>]\<rparr>))
        ''a'' = None
   \<and> files (clearExpireEntryTick [(''a'', 10), (''b'', 11)]
        (NewFileCache\<lparr>files :=
           [''a'' \<mapsto> \<lparr>Content = ''x'', Md5 = ''m'', Version = 1, ExpireTime = 5, Empty = False\<rparr>,
            ''b'' \<mapsto> \<lparr>Content = '''', Md5 = '''', Version = 0, ExpireTime = 11, Empty = True\<rparr>]\<rparr>))
        ''b'' = Some \<lparr>Content = '''', Md5 = '''', Version = 0, ExpireTime = 11, Empty = True\<rparr>
   \<and> expireCnt (clearExpireEntryTick [(''a'', 10), (''b'', 11)]
        (NewFileCache\<lparr>files :=
           [''a'' \<mapsto> \<lparr>Content = ''x'', Md5 = ''m'', Version = 1, ExpireTime = 5, Empty = False\<rparr>,
            ''b'' \<mapsto> \<lparr>Content = '''', Md5 = '''', Version = 0, ExpireTime = 11, Empty = True\<rparr>]\<rparr>))
       = 1
   \<and> logged (clearExpireEntryTick [(''a'', 10), (''b'', 11)]
        (NewFileCache\<lparr>files :=
           [''a'' \<mapsto> \<lparr>Content = ''x'', Md5 = ''m'', Version = 1, ExpireTime = 5, Empty = False\<rparr>,
            ''b'' \<mapsto> \<lparr>Content = '''', Md5 = '''', Version = 0, ExpireTime = 11, Empty = True\<rparr>]\<rparr>))
       = [ClearExpired 1]"
proof -
  let ?ea = "\<lparr>Content = ''x'', Md5 = ''m'', Version = 1, ExpireTime = 5, Empty = False\<rparr>"
  let ?eb = "\<lparr>Content = '''', Md5 = '''', Version = 0, ExpireTime = 11, Empty = True\<rparr>"
  let ?fc = "NewFileCache\<lparr>files := [''a'' \<mapsto> ?ea, ''b'' \<mapsto> ?eb]\<rparr>"
  let ?vs = "[(''a'', 10 :: int), (''b'', 11)]"
  let ?fc' = "clearExpireEntryTick ?vs ?fc"
  have h1: "distinct (map fst ?vs)" by simp
  have h2: "fst ` set ?vs = dom (files ?fc)" by auto
  note t = C6_sweep_tick [OF h1 h2 refl refl]
  have len: "length (filter (expiredAt (files ?fc)) ?vs) = 1"
    by (simp add: expiredAt_def)
  from t len have n: "card (dom (files ?fc) - dom (files ?fc')) = 1"
    by simp
  from t have c: "expireCnt ?fc' = expireCnt ?fc + of_nat (card (dom (files ?fc) - dom (files ?fc')))"
    by blast
  have c1: "expireCnt ?fc' = 1"
    unfolding c n by (simp add: NewFileCache_def)
  from t have l: "logged ?fc' =
      (if 0 <s (of_nat (card (dom (files ?fc) - dom (files ?fc'))) :: 64 word)
       then logged ?fc @ [ClearExpired (of_nat (card (dom (files ?fc) - dom (files ?fc'))))]
       else logged ?fc)"
    by blast
  have l1: "logged ?fc' = [ClearExpired 1]"
    unfolding l n by (simp add: NewFileCache_def word_sless_alt)
  from t have all: "\<forall>fileId entry. files ?fc fileId = Some entry \<longrightarrow>
            (\<exists>now. (fileId, now) \<in> set ?vs
               \<and> files ?fc' fileId = (if now > ExpireTime entry then None else Some entry))"
    by blast
  have fa: "files ?fc ''a'' = Some ?ea" by simp
  have fb: "files ?fc ''b'' = Some ?eb" by simp
  from all fa have "\<exists>now. (''a'', now) \<in> set ?vs
               \<and> files ?fc' ''a'' = (if now > ExpireTime ?ea then None else Some ?ea)"
    by blast
  then have a1: "files ?fc' ''a'' = None" by auto
  from all fb have "\<exists>now. (''b'', now) \<in> set ?vs
               \<and> files ?fc' ''b'' = (if now > ExpireTime ?eb then None else Some ?eb)"
    by blast
  then have b1: "files ?fc' ''b'' = Some ?eb" by auto
  from h1 a1 b1 c1 l1 show ?thesis by (intro conjI)
qed

subsection \<open>The Empty flag\<close>

lemma rangeClear_keeps:
  "fst (rangeClear visits m c) k = Some entry \<Longrightarrow> m k = Some entry"
proof (induction visits arbitrary: m c)
  case Nil
  then show ?case by simp
next
  case (Cons v rest)
  obtain fileId now where v: "v = (fileId, now)" by (cases v)
  show ?case
  proof (cases "m fileId")
    case None
    with Cons.prems v have "fst (rangeClear rest m c) k = Some entry" by simp
    then show ?thesis by (rule Cons.IH)
  next
    case (Some stored)
    show ?thesis
    proof (cases "now > ExpireTime stored")
      case True
      with Cons.prems Some v
      have "fst (rangeClear rest (m(fileId := None)) (c + 1)) k = Some entry" by simp
      then have "(m(fileId := None)) k = Some entry" by (rule Cons.IH)
      then show ?thesis by (simp split: if_splits)
    next
      case False
      with Cons.prems Some v have "fst (rangeClear rest m c) k = Some entry" by simp
      then show ?thesis by (rule Cons.IH)
    qed
  qed
qed

lemma tick_keeps:
  "files (clearExpireEntryTick visits fc) k = Some entry \<Longrightarrow> files fc k = Some entry"
proof -
  assume a: "files (clearExpireEntryTick visits fc) k = Some entry"
  have "files (clearExpireEntryTick visits fc) = fst (rangeClear visits (files fc) 0)"
    by (simp add: clearExpireEntryTick_def Let_def split: prod.splits)
  with a have "fst (rangeClear visits (files fc) 0) k = Some entry" by simp
  then show ?thesis by (rule rangeClear_keeps)
qed

lemma Put_new_entry:
  "files (Put now raw file fc) k = Some entry \<Longrightarrow> files fc k \<noteq> Some entry \<Longrightarrow>
   entry = newEntry (FileContent file) (FileMd5 file) (FileVersion file) now raw"
  by (auto simp add: Put_def Get_def Let_def split: option.splits if_splits)

lemma GetOrLoadIfAbsent_new_entry:
  "files (snd (GetOrLoadIfAbsent storage now raw namespace grp fileName fc)) k = Some entry \<Longrightarrow>
   files fc k \<noteq> Some entry \<Longrightarrow>
   (\<exists>file. storage namespace grp fileName = (Some file, None)
       \<and> entry = newEntry (FileContent file) (FileMd5 file) (FileVersion file) now raw)
   \<or> (storage namespace grp fileName = (None, None)
       \<and> entry = \<lparr>Content = '''', Md5 = '''', Version = 0,
                   ExpireTime = getExpireTime now raw, Empty = True\<rparr>)"
  by (auto simp add: GetOrLoadIfAbsent_def Let_def split: option.splits if_splits prod.splits)

lemma Remove_keeps:
  "files (Remove namespace grp fileName fc) k = Some entry \<Longrightarrow> files fc k = Some entry"
  by (simp add: Remove_def split: if_splits)

lemma perform_negativesBlank:
  assumes "negativesBlank (files fc)"
  shows "negativesBlank (files (perform c fc))"
  unfolding negativesBlank_def
proof (intro allI impI)
  fix k entry
  assume s: "files (perform c fc) k = Some entry"
  show "blankIfEmpty entry"
  proof (cases "files fc k = Some entry")
    case True
    with assms show ?thesis by (simp add: negativesBlank_def)
  next
    case False
    show ?thesis
    proof (cases c)
      case (CallPut now raw rel)
      with s have "files (Put now raw rel fc) k = Some entry" by simp
      from Put_new_entry [OF this False]
      have "entry = newEntry (FileContent rel) (FileMd5 rel) (FileVersion rel) now raw" .
      then show ?thesis by (simp add: blankIfEmpty_def newEntry_def)
    next
      case (CallGet namespace grp fileName)
      with s False show ?thesis by simp
    next
      case (CallGetOrLoadIfAbsent storage now raw namespace grp fileName)
      with s have "files (snd (GetOrLoadIfAbsent storage now raw namespace grp fileName fc)) k
          = Some entry" by simp
      from GetOrLoadIfAbsent_new_entry [OF this False]
      show ?thesis by (auto simp add: blankIfEmpty_def newEntry_def)
    next
      case (CallRemove namespace grp fileName)
      with s have "files (Remove namespace grp fileName fc) k = Some entry" by simp
      then have "files fc k = Some entry" by (rule Remove_keeps)
      with False show ?thesis by simp
    next
      case (Tick visits)
      with s have "files (clearExpireEntryTick visits fc) k = Some entry" by simp
      then have "files fc k = Some entry" by (rule tick_keeps)
      with False show ?thesis by simp
    qed
  qed
qed

lemma performAll_negativesBlank:
  "negativesBlank (files fc) \<Longrightarrow> negativesBlank (files (performAll cs fc))"
  by (induction cs arbitrary: fc) (simp_all add: perform_negativesBlank)

lemma NewFileCache_negativesBlank: "negativesBlank (files NewFileCache)"
  by (simp add: negativesBlank_def NewFileCache_def)

lemma perform_new_empty:
  assumes "files (perform c fc) k = Some entry" and "files fc k \<noteq> Some entry" and "Empty entry"
  shows "\<exists>storage now raw namespace grp fileName.
           c = CallGetOrLoadIfAbsent storage now raw namespace grp fileName
           \<and> storage namespace grp fileName = (None, None)"
proof (cases c)
  case (CallPut now raw rel)
  with assms(1) have "files (Put now raw rel fc) k = Some entry" by simp
  from Put_new_entry [OF this assms(2)] assms(3) show ?thesis by (simp add: newEntry_def)
next
  case (CallGet namespace grp fileName)
  with assms show ?thesis by simp
next
  case (CallGetOrLoadIfAbsent storage now raw namespace grp fileName)
  with assms(1) have "files (snd (GetOrLoadIfAbsent storage now raw namespace grp fileName fc)) k
      = Some entry" by simp
  from GetOrLoadIfAbsent_new_entry [OF this assms(2)] assms(3)
  have "storage namespace grp fileName = (None, None)" by (auto simp add: newEntry_def)
  with CallGetOrLoadIfAbsent show ?thesis by blast
next
  case (CallRemove namespace grp fileName)
  with assms(1) have "files (Remove namespace grp fileName fc) k = Some entry" by simp
  then have "files fc k = Some entry" by (rule Remove_keeps)
  with assms(2) show ?thesis by simp
next
  case (Tick visits)
  with assms(1) have "files (clearExpireEntryTick visits fc) k = Some entry" by simp
  then have "files fc k = Some entry" by (rule tick_keeps)
  with assms(2) show ?thesis by simp
qed

lemma Put_not_mistaken:
  assumes "files fc (GenFileId namespace grp fileName) = None" and "v2 \<le> v1"
  shows "files (Put now2 raw2
             \<lparr>Namespace = namespace, Group = grp, FileName = fileName,
              FileContent = c2, FileMd5 = m2, FileVersion = v2\<rparr>
             (Put now1 raw1
                \<lparr>Namespace = namespace, Group = grp, FileName = fileName,
                 FileContent = '''', FileMd5 = m1, FileVersion = v1\<rparr> fc))
       = (files fc)(GenFileId namespace grp fileName \<mapsto>
            \<lparr>Content = '''', Md5 = m1, Version = v1,
             ExpireTime = getExpireTime now1 raw1, Empty = False\<rparr>)"
proof -
  from assms(2) have "\<not> v1 < v2" by (simp add: not_less)
  with assms(1) show ?thesis
    by (simp add: Put_def Get_def newEntry_def Let_def)
qed

text \<open>
  C10: an entry that \<open>Put\<close> or a load of a record newly stores is not marked
  \<open>Empty\<close>, whatever its content; a newly stored entry that is marked \<open>Empty\<close> comes from
  \<open>GetOrLoadIfAbsent\<close> with a storage that has no record, and has empty content, empty
  checksum and version zero, as every \<open>Empty\<close> entry of a cache reached from a new one
  has; so \<open>Put\<close> compares versions against a stored record with empty content and
  ignores an equal or lower version.
\<close>

theorem C10_Empty_only_for_absent:
  "(\<forall>k entry. files (Put now raw rel fc) k = Some entry \<and> files fc k \<noteq> Some entry \<longrightarrow>
       \<not> Empty entry \<and> Content entry = FileContent rel)
   \<and> (\<forall>k entry.
         files (snd (GetOrLoadIfAbsent storage now raw namespace grp fileName fc)) k = Some entry
         \<and> files fc k \<noteq> Some entry \<longrightarrow>
           (\<exists>loaded. storage namespace grp fileName = (Some loaded, None)
               \<and> \<not> Empty entry \<and> Content entry = FileContent loaded)
           \<or> (storage namespace grp fileName = (None, None) \<and> Empty entry
               \<and> Content entry = '''' \<and> Md5 entry = '''' \<and> Version entry = 0))
   \<and> (\<forall>c k entry. files (perform c fc) k = Some entry \<and> files fc k \<noteq> Some entry
         \<and> Empty entry \<longrightarrow>
           (\<exists>storage now raw namespace grp fileName.
              c = CallGetOrLoadIfAbsent storage now raw namespace grp fileName
              \<and> storage namespace grp fileName = (None, None)))
   \<and> negativesBlank (files (performAll cs NewFileCache))
   \<and> (files fc (GenFileId namespace grp fileName) = None \<and> v2 \<le> v1 \<longrightarrow>
        files (Put now2 raw2
                 \<lparr>Namespace = namespace, Group = grp, FileName = fileName,
                  FileContent = c2, FileMd5 = m2, FileVersion = v2\<rparr>
                 (Put now1 raw1
                    \<lparr>Namespace = namespace, Group = grp, FileName = fileName,
                     FileContent = '''', FileMd5 = m1, FileVersion = v1\<rparr> fc))
          = (files fc)(GenFileId namespace grp fileName \<mapsto>
              \<lparr>Content = '''', Md5 = m1, Version = v1,
               ExpireTime = getExpireTime now1 raw1, Empty = False\<rparr>))"
proof -
  have p: "\<forall>k entry. files (Put now raw rel fc) k = Some entry \<and> files fc k \<noteq> Some entry \<longrightarrow>
       \<not> Empty entry \<and> Content entry = FileContent rel"
  proof (intro allI impI)
    fix k entry
    assume "files (Put now raw rel fc) k = Some entry \<and> files fc k \<noteq> Some entry"
    then have "entry = newEntry (FileContent rel) (FileMd5 rel) (FileVersion rel) now raw"
      using Put_new_entry by blast
    then show "\<not> Empty entry \<and> Content entry = FileContent rel"
      by (simp add: newEntry_def)
  qed
  have g: "\<forall>k entry.
         files (snd (GetOrLoadIfAbsent storage now raw namespace grp fileName fc)) k = Some entry
         \<and> files fc k \<noteq> Some entry \<longrightarrow>
           (\<exists>loaded. storage namespace grp fileName = (Some loaded, None)
               \<and> \<not> Empty entry \<and> Content entry = FileContent loaded)
           \<or> (storage namespace grp fileName = (None, None) \<and> Empty entry
               \<and> Content entry = '''' \<and> Md5 entry = '''' \<and> Version entry = 0)"
  proof (intro allI impI)
    fix k entry
    assume a: "files (snd (GetOrLoadIfAbsent storage now raw namespace grp fileName fc)) k
        = Some entry \<and> files fc k \<noteq> Some entry"
    from GetOrLoadIfAbsent_new_entry [OF conjunct1 [OF a] conjunct2 [OF a]]
    show "(\<exists>loaded. storage namespace grp fileName = (Some loaded, None)
               \<and> \<not> Empty entry \<and> Content entry = FileContent loaded)
           \<or> (storage namespace grp fileName = (None, None) \<and> Empty entry
               \<and> Content entry = '''' \<and> Md5 entry = '''' \<and> Version entry = 0)"
      by (auto simp add: newEntry_def)
  qed
  have o: "\<forall>c k entry. files (perform c fc) k = Some entry \<and> files fc k \<noteq> Some entry
         \<and> Empty entry \<longrightarrow>
           (\<exists>storage now raw namespace grp fileName.
              c = CallGetOrLoadIfAbsent storage now raw namespace grp fileName
              \<and> storage namespace grp fileName = (None, None))"
    using perform_new_empty by blast
  have i: "negativesBlank (files (performAll cs NewFileCache))"
    using NewFileCache_negativesBlank by (rule performAll_negativesBlank)
  have m: "files fc (GenFileId namespace grp fileName) = None \<and> v2 \<le> v1 \<longrightarrow>
        files (Put now2 raw2
                 \<lparr>Namespace = namespace, Group = grp, FileName = fileName,
                  FileContent = c2, FileMd5 = m2, FileVersion = v2\<rparr>
                 (Put now1 raw1
                    \<lparr>Namespace = namespace, Group = grp, FileName = fileName,
                     FileContent = '''', FileMd5 = m1, FileVersion = v1\<rparr> fc))
          = (files fc)(GenFileId namespace grp fileName \<mapsto>
              \<lparr>Content = '''', Md5 = m1, Version = v1,
               ExpireTime = getExpireTime now1 raw1, Empty = False\<rparr>)"
    using Put_not_mistaken by blast
  show ?thesis
    using p g o i m by (intro conjI)
qed

theorem C10_Empty_only_for_absent_witness:
  "files NewFileCache (GenFileId ''n'' ''g'' ''f'') = None
   \<and> (3 :: 64 word) \<le> 3
   \<and> map_option Empty
        (files (Put 10 5
                  \<lparr>Namespace = ''n'', Group = ''g'', FileName = ''f'',
                   FileContent = '''', FileMd5 = ''d'', FileVersion = 3\<rparr> NewFileCache)
           (GenFileId ''n'' ''g'' ''f'')) = Some False
   \<and> map_option Content
        (files (Put 30 9
                  \<lparr>Namespace = ''n'', Group = ''g'', FileName = ''f'',
                   FileContent = ''x'', FileMd5 = ''e'', FileVersion = 3\<rparr>
                  (Put 10 5
                     \<lparr>Namespace = ''n'', Group = ''g'', FileName = ''f'',
                      FileContent = '''', FileMd5 = ''d'', FileVersion = 3\<rparr> NewFileCache))
           (GenFileId ''n'' ''g'' ''f'')) = Some ''''"
proof -
  let ?blank = "\<lparr>Namespace = ''n'', Group = ''g'', FileName = ''f'',
                   FileContent = '''', FileMd5 = ''d'', FileVersion = 3\<rparr>"
  let ?k = "GenFileId ''n'' ''g'' ''f''"
  note t = C10_Empty_only_for_absent [where fc = NewFileCache and now = 10 and raw = 5
      and rel = ?blank and namespace = "''n''" and grp = "''g''" and fileName = "''f''"
      and ?v1.0 = 3 and ?v2.0 = 3 and ?c2.0 = "''x''" and ?m2.0 = "''e''" and ?m1.0 = "''d''"
      and ?now1.0 = 10 and ?raw1.0 = 5 and ?now2.0 = 30 and ?raw2.0 = 9]
  have h1: "files NewFileCache ?k = None"
    by (simp add: NewFileCache_def)
  have h2: "(3 :: 64 word) \<le> 3"
    by simp
  obtain e where e: "files (Put 10 5 ?blank NewFileCache) ?k = Some e"
    by (simp add: Put_def Get_def NewFileCache_def)
  from t e h1 have "\<not> Empty e"
    by (metis option.distinct(1))
  with e have a: "map_option Empty (files (Put 10 5 ?blank NewFileCache) ?k) = Some False"
    by simp
  from t h1 h2 have "files (Put 30 9
                  \<lparr>Namespace = ''n'', Group = ''g'', FileName = ''f'',
                   FileContent = ''x'', FileMd5 = ''e'', FileVersion = 3\<rparr>
                  (Put 10 5 ?blank NewFileCache))
          = (files NewFileCache)(?k \<mapsto>
              \<lparr>Content = '''', Md5 = ''d'', Version = 3,
               ExpireTime = getExpireTime 10 5, Empty = False\<rparr>)"
    by blast
  then have b: "map_option Content
        (files (Put 30 9
                  \<lparr>Namespace = ''n'', Group = ''g'', FileName = ''f'',
                   FileContent = ''x'', FileMd5 = ''e'', FileVersion = 3\<rparr>
                  (Put 10 5 ?blank NewFileCache)) ?k) = Some ''''"
    by simp
  from h1 h2 a b show ?thesis by (intro conjI)
qed

subsection \<open>Concurrent callers\<close>

lemma callerStep_key:
  "callerStep storage now raw (key, p) sh = Some ((key', p'), sh') \<Longrightarrow> key' = key"
  by (cases p) (auto simp add: Let_def split: option.splits if_splits prod.splits)

lemma callerStep_lock:
  assumes "callerStep storage now raw (key, p) sh = Some ((key', p'), sh')"
  shows "(\<not> holdsLock p \<and> holdsLock p' \<and> fileIdOf key \<notin> locked sh
            \<and> locked sh' = insert (fileIdOf key) (locked sh))
       \<or> (holdsLock p \<and> \<not> holdsLock p' \<and> locked sh' = locked sh - {fileIdOf key})
       \<or> (holdsLock p = holdsLock p' \<and> locked sh' = locked sh)"
  using assms
  by (cases p) (auto simp add: Let_def split: option.splits if_splits prod.splits)

lemma step_elim:
  assumes "step storage (cs, sh) (cs', sh')"
  obtains i key p p' now raw where "i < length cs" and "cs ! i = (key, p)"
    and "cs' = cs[i := (key, p')]"
    and "callerStep storage now raw (key, p) sh = Some ((key, p'), sh')"
proof -
  from assms obtain i now raw c' where i: "i < length cs"
    and c: "callerStep storage now raw (cs ! i) sh = Some (c', sh')"
    and u: "cs' = cs[i := c']"
    by (auto elim: step.cases)
  obtain key p where k: "cs ! i = (key, p)" by (cases "cs ! i")
  obtain key' p' where k': "c' = (key', p')" by (cases c')
  from c k k' have "key' = key" by (simp add: callerStep_key)
  with i c u k k' that show thesis by simp
qed

lemma lockInv_step:
  assumes inv: "lockInv (cs, sh)" and st: "step storage (cs, sh) (cs', sh')"
  shows "lockInv (cs', sh')"
proof -
  from st obtain i key p p' now raw where i: "i < length cs" and ci: "cs ! i = (key, p)"
    and cs': "cs' = cs[i := (key, p')]"
    and c: "callerStep storage now raw (key, p) sh = Some ((key, p'), sh')"
    by (rule step_elim)
  from inv have uniq: "\<And>a b. a < length cs \<Longrightarrow> b < length cs \<Longrightarrow> holdsLock (snd (cs ! a))
      \<Longrightarrow> holdsLock (snd (cs ! b)) \<Longrightarrow> fileIdOf (fst (cs ! a)) = fileIdOf (fst (cs ! b)) \<Longrightarrow> a = b"
    and lk: "\<And>k. k \<in> locked sh \<longleftrightarrow>
            (\<exists>a. a < length cs \<and> holdsLock (snd (cs ! a)) \<and> fileIdOf (fst (cs ! a)) = k)"
    by (simp_all add: lockInv_def)
  have len: "length cs' = length cs" by (simp add: cs')
  have at_i: "cs' ! i = (key, p')" using i by (simp add: cs')
  have other: "\<And>a. a \<noteq> i \<Longrightarrow> cs' ! a = cs ! a" by (simp add: cs')
  have same_key: "\<And>a. a < length cs \<Longrightarrow> fst (cs' ! a) = fst (cs ! a)"
    using ci i by (auto simp add: cs' nth_list_update)
  from callerStep_lock [OF c]
  consider (acq) "\<not> holdsLock p" "holdsLock p'" "fileIdOf key \<notin> locked sh"
      "locked sh' = insert (fileIdOf key) (locked sh)"
    | (rel) "holdsLock p" "\<not> holdsLock p'" "locked sh' = locked sh - {fileIdOf key}"
    | (keep) "holdsLock p = holdsLock p'" "locked sh' = locked sh"
    by blast
  then show ?thesis
  proof cases
    case acq
    have none: "\<And>a. a < length cs \<Longrightarrow> holdsLock (snd (cs ! a))
        \<Longrightarrow> fileIdOf (fst (cs ! a)) \<noteq> fileIdOf key"
      using acq(3) lk by blast
    have h: "\<And>a. a < length cs \<Longrightarrow> holdsLock (snd (cs' ! a)) \<longleftrightarrow> a = i \<or> holdsLock (snd (cs ! a))"
      using acq(1,2) ci i by (auto simp add: cs' nth_list_update)
    have u': "\<And>a b. a < length cs \<Longrightarrow> b < length cs \<Longrightarrow> holdsLock (snd (cs' ! a))
      \<Longrightarrow> holdsLock (snd (cs' ! b)) \<Longrightarrow> fileIdOf (fst (cs' ! a)) = fileIdOf (fst (cs' ! b)) \<Longrightarrow> a = b"
    proof -
      fix a b
      assume a: "a < length cs" and b: "b < length cs" and ha: "holdsLock (snd (cs' ! a))"
        and hb: "holdsLock (snd (cs' ! b))"
        and e: "fileIdOf (fst (cs' ! a)) = fileIdOf (fst (cs' ! b))"
      from e a b have e0: "fileIdOf (fst (cs ! a)) = fileIdOf (fst (cs ! b))"
        by (simp add: same_key)
      show "a = b"
      proof (cases "a = i")
        case True
        show ?thesis
        proof (cases "b = i")
          case True
          with \<open>a = i\<close> show ?thesis by simp
        next
          case False
          with hb h [OF b] have "holdsLock (snd (cs ! b))" by simp
          from none [OF b this] e0 True ci show ?thesis by simp
        qed
      next
        case False
        with ha h [OF a] have hla: "holdsLock (snd (cs ! a))" by simp
        show ?thesis
        proof (cases "b = i")
          case True
          from none [OF a hla] e0 True ci show ?thesis by simp
        next
          case False
          with hb h [OF b] have "holdsLock (snd (cs ! b))" by simp
          from uniq [OF a b hla this e0] show ?thesis .
        qed
      qed
    qed
    have l': "\<And>k. k \<in> locked sh' \<longleftrightarrow>
            (\<exists>a. a < length cs \<and> holdsLock (snd (cs' ! a)) \<and> fileIdOf (fst (cs' ! a)) = k)"
    proof -
      fix k
      show "k \<in> locked sh' \<longleftrightarrow>
            (\<exists>a. a < length cs \<and> holdsLock (snd (cs' ! a)) \<and> fileIdOf (fst (cs' ! a)) = k)"
      proof
        assume "k \<in> locked sh'"
        with acq(4) have "k = fileIdOf key \<or> k \<in> locked sh" by simp
        then show "\<exists>a. a < length cs \<and> holdsLock (snd (cs' ! a)) \<and> fileIdOf (fst (cs' ! a)) = k"
        proof
          assume "k = fileIdOf key"
          with i at_i acq(2) show ?thesis by auto
        next
          assume "k \<in> locked sh"
          with lk obtain a where a: "a < length cs" "holdsLock (snd (cs ! a))"
            "fileIdOf (fst (cs ! a)) = k" by blast
          with h [OF a(1)] same_key [OF a(1)] show ?thesis by auto
        qed
      next
        assume "\<exists>a. a < length cs \<and> holdsLock (snd (cs' ! a)) \<and> fileIdOf (fst (cs' ! a)) = k"
        then obtain a where a: "a < length cs" "holdsLock (snd (cs' ! a))"
          "fileIdOf (fst (cs' ! a)) = k" by blast
        show "k \<in> locked sh'"
        proof (cases "a = i")
          case True
          with a(3) at_i acq(4) show ?thesis by simp
        next
          case False
          with a h [OF a(1)] same_key [OF a(1)] have "holdsLock (snd (cs ! a))"
            "fileIdOf (fst (cs ! a)) = k" by simp_all
          with a(1) lk have "k \<in> locked sh" by blast
          with acq(4) show ?thesis by simp
        qed
      qed
    qed
    from u' l' show ?thesis
      by (simp add: lockInv_def len)
  next
    case rel
    have h: "\<And>a. a < length cs \<Longrightarrow> holdsLock (snd (cs' ! a)) \<longleftrightarrow> a \<noteq> i \<and> holdsLock (snd (cs ! a))"
      using rel(1,2) ci i by (auto simp add: cs' nth_list_update)
    have hi: "holdsLock (snd (cs ! i))" using rel(1) ci by simp
    have u': "\<And>a b. a < length cs \<Longrightarrow> b < length cs \<Longrightarrow> holdsLock (snd (cs' ! a))
      \<Longrightarrow> holdsLock (snd (cs' ! b)) \<Longrightarrow> fileIdOf (fst (cs' ! a)) = fileIdOf (fst (cs' ! b)) \<Longrightarrow> a = b"
    proof -
      fix a b
      assume a: "a < length cs" and b: "b < length cs" and ha: "holdsLock (snd (cs' ! a))"
        and hb: "holdsLock (snd (cs' ! b))"
        and e: "fileIdOf (fst (cs' ! a)) = fileIdOf (fst (cs' ! b))"
      from e a b have e0: "fileIdOf (fst (cs ! a)) = fileIdOf (fst (cs ! b))"
        by (simp add: same_key)
      from ha h [OF a] have hla: "holdsLock (snd (cs ! a))" by simp
      from hb h [OF b] have hlb: "holdsLock (snd (cs ! b))" by simp
      from uniq [OF a b hla hlb e0] show "a = b" .
    qed
    have l': "\<And>k. k \<in> locked sh' \<longleftrightarrow>
            (\<exists>a. a < length cs \<and> holdsLock (snd (cs' ! a)) \<and> fileIdOf (fst (cs' ! a)) = k)"
    proof -
      fix k
      show "k \<in> locked sh' \<longleftrightarrow>
            (\<exists>a. a < length cs \<and> holdsLock (snd (cs' ! a)) \<and> fileIdOf (fst (cs' ! a)) = k)"
      proof
        assume "k \<in> locked sh'"
        with rel(3) have k: "k \<noteq> fileIdOf key" "k \<in> locked sh" by simp_all
        with lk obtain a where a: "a < length cs" "holdsLock (snd (cs ! a))"
          "fileIdOf (fst (cs ! a)) = k" by blast
        from a(3) k(1) ci have "a \<noteq> i" by auto
        with a h [OF a(1)] same_key [OF a(1)]
        show "\<exists>a. a < length cs \<and> holdsLock (snd (cs' ! a)) \<and> fileIdOf (fst (cs' ! a)) = k"
          by auto
      next
        assume "\<exists>a. a < length cs \<and> holdsLock (snd (cs' ! a)) \<and> fileIdOf (fst (cs' ! a)) = k"
        then obtain a where a: "a < length cs" "holdsLock (snd (cs' ! a))"
          "fileIdOf (fst (cs' ! a)) = k" by blast
        from a h [OF a(1)] same_key [OF a(1)] have ai: "a \<noteq> i" and hla: "holdsLock (snd (cs ! a))"
          and f: "fileIdOf (fst (cs ! a)) = k" by simp_all
        from a(1) hla f lk have "k \<in> locked sh" by blast
        moreover have "k \<noteq> fileIdOf key"
        proof
          assume "k = fileIdOf key"
          with f ci have "fileIdOf (fst (cs ! a)) = fileIdOf (fst (cs ! i))" by simp
          from uniq [OF a(1) i hla hi this] ai show False by simp
        qed
        ultimately show "k \<in> locked sh'" using rel(3) by simp
      qed
    qed
    from u' l' show ?thesis
      by (simp add: lockInv_def len)
  next
    case keep
    have h: "\<And>a. a < length cs \<Longrightarrow> holdsLock (snd (cs' ! a)) \<longleftrightarrow> holdsLock (snd (cs ! a))"
      using keep(1) ci i by (auto simp add: cs' nth_list_update)
    have u': "\<And>a b. a < length cs \<Longrightarrow> b < length cs \<Longrightarrow> holdsLock (snd (cs' ! a))
      \<Longrightarrow> holdsLock (snd (cs' ! b)) \<Longrightarrow> fileIdOf (fst (cs' ! a)) = fileIdOf (fst (cs' ! b)) \<Longrightarrow> a = b"
      using uniq h same_key by simp
    have l': "\<And>k. k \<in> locked sh' \<longleftrightarrow>
            (\<exists>a. a < length cs \<and> holdsLock (snd (cs' ! a)) \<and> fileIdOf (fst (cs' ! a)) = k)"
    proof -
      fix k
      have "(\<exists>a. a < length cs \<and> holdsLock (snd (cs' ! a)) \<and> fileIdOf (fst (cs' ! a)) = k)
          \<longleftrightarrow> (\<exists>a. a < length cs \<and> holdsLock (snd (cs ! a)) \<and> fileIdOf (fst (cs ! a)) = k)"
        using h same_key by auto
      with lk keep(2) show "k \<in> locked sh' \<longleftrightarrow>
            (\<exists>a. a < length cs \<and> holdsLock (snd (cs' ! a)) \<and> fileIdOf (fst (cs' ! a)) = k)"
        by simp
    qed
    from u' l' show ?thesis
      by (simp add: lockInv_def len)
  qed
qed

lemma inFlight_holdsLock: "inFlight p \<Longrightarrow> holdsLock p"
  by (cases p) simp_all

lemma callerStep_frame:
  assumes "callerStep storage now raw (key, p) sh = Some ((key, p'), sh')"
    and "fileIdOf key \<noteq> k"
  shows "files sh' k = files sh k" and "countLoads k (loads sh') = countLoads k (loads sh)"
  using assms
  by (cases p; auto simp add: Let_def countLoads_def split: option.splits if_splits prod.splits)+

lemma countLoads_append:
  "countLoads k (keys @ [key]) = countLoads k keys + (if fileIdOf key = k then 1 else 0)"
  by (simp add: countLoads_def)

lemma callerStep_quiet:
  assumes "callerStep storage now raw (key, p) sh = Some ((key, p'), sh')"
    and "p \<noteq> AtCall" and "\<forall>res. p \<noteq> AtStore res"
    and "callerOk storage (files sh (fileIdOf key)) (key, p)"
  shows "files sh' = files sh" and "loads sh' = loads sh" and "inFlight p' = inFlight p"
    and "callerOk storage (files sh' (fileIdOf key)) (key, p')"
  using assms
  by (cases p; auto simp add: Let_def split: option.splits if_splits prod.splits)+

lemma callerStep_call:
  assumes "callerStep storage now raw (key, AtCall) sh = Some ((key, p'), sh')"
  shows "p' = InCall" and "files sh' = files sh" and "loads sh' = loads sh @ [key]"
  using assms by auto

lemma callerStep_store:
  assumes "callerStep storage now raw (key, AtStore res) sh = Some ((key, p'), sh')"
    and "snd res = None"
  shows "\<exists>entry. p' = AtUnlock (Inr entry) \<and> files sh' = (files sh)(fileIdOf key \<mapsto> entry)"
    and "loads sh' = loads sh"
  using assms
  by (auto simp add: Let_def split: option.splits prod.splits)

lemma noError_at:
  assumes "noError storage k cs" and "i < length cs" and "cs ! i = ((namespace, grp, fileName), p)"
    and "GenFileId namespace grp fileName = k"
  shows "snd (storage namespace grp fileName) = None"
proof -
  from assms(2) have "cs ! i \<in> set cs" by simp
  with assms(1,3,4) show ?thesis
    by (force simp add: noError_def fileIdOf_def)
qed

lemma onceInv_step:
  assumes linv: "lockInv (cs, sh)" and inv: "onceInv storage k n0 (cs, sh)"
    and ne: "noError storage k cs" and st: "step storage (cs, sh) (cs', sh')"
  shows "onceInv storage k n0 (cs', sh')"
proof -
  from st obtain i key p p' now raw where i: "i < length cs" and ci: "cs ! i = (key, p)"
    and cs': "cs' = cs[i := (key, p')]"
    and c: "callerStep storage now raw (key, p) sh = Some ((key, p'), sh')"
    by (rule step_elim)
  let ?other = "\<exists>a. a < length cs \<and> a \<noteq> i \<and> fileIdOf (fst (cs ! a)) = k \<and> inFlight (snd (cs ! a))"
  from linv have uniq: "\<And>a b. a < length cs \<Longrightarrow> b < length cs \<Longrightarrow> holdsLock (snd (cs ! a))
      \<Longrightarrow> holdsLock (snd (cs ! b)) \<Longrightarrow> fileIdOf (fst (cs ! a)) = fileIdOf (fst (cs ! b)) \<Longrightarrow> a = b"
    by (simp add: lockInv_def)
  from inv have ok: "\<And>a. a < length cs \<Longrightarrow> fileIdOf (fst (cs ! a)) = k
      \<Longrightarrow> callerOk storage (files sh k) (cs ! a)"
    and cnt: "countLoads k (loads sh) =
         n0 + (if files sh k \<noteq> None
                  \<or> (\<exists>a. a < length cs \<and> fileIdOf (fst (cs ! a)) = k \<and> inFlight (snd (cs ! a)))
               then 1 else 0)"
    by (simp_all add: onceInv_def)
  have len: "length cs' = length cs" by (simp add: cs')
  have at_i: "cs' ! i = (key, p')" using i by (simp add: cs')
  have other: "\<And>a. a \<noteq> i \<Longrightarrow> cs' ! a = cs ! a" by (simp add: cs')
  have fl: "(\<exists>a. a < length cs \<and> fileIdOf (fst (cs ! a)) = k \<and> inFlight (snd (cs ! a)))
      \<longleftrightarrow> (fileIdOf key = k \<and> inFlight p) \<or> ?other"
    using i ci by (metis fst_conv snd_conv)
  have fl': "(\<exists>a. a < length cs \<and> fileIdOf (fst (cs' ! a)) = k \<and> inFlight (snd (cs' ! a)))
      \<longleftrightarrow> (fileIdOf key = k \<and> inFlight p') \<or> ?other"
    using i at_i other by (metis fst_conv snd_conv)
  have concl: "onceInv storage k n0 (cs', sh')"
    if k': "fileIdOf key = k \<Longrightarrow> callerOk storage (files sh' k) (key, p')"
      and o': "\<And>a. a < length cs \<Longrightarrow> a \<noteq> i \<Longrightarrow> fileIdOf (fst (cs ! a)) = k
          \<Longrightarrow> callerOk storage (files sh' k) (cs ! a)"
      and c': "countLoads k (loads sh') =
         n0 + (if files sh' k \<noteq> None \<or> (fileIdOf key = k \<and> inFlight p') \<or> ?other then 1 else 0)"
  proof -
    have "callerOk storage (files sh' k) (cs' ! a)"
      if "a < length cs" "fileIdOf (fst (cs' ! a)) = k" for a
    proof (cases "a = i")
      case True
      with that at_i k' show ?thesis by simp
    next
      case False
      with that other o' show ?thesis by simp
    qed
    with c' fl' show ?thesis
      by (simp add: onceInv_def len)
  qed
  show ?thesis
  proof (cases "fileIdOf key = k")
    case False
    note fr = callerStep_frame [OF c False]
    show ?thesis
    proof (rule concl)
      assume "fileIdOf key = k"
      with False show "callerOk storage (files sh' k) (key, p')" by simp
    next
      fix a assume "a < length cs" "a \<noteq> i" "fileIdOf (fst (cs ! a)) = k"
      then show "callerOk storage (files sh' k) (cs ! a)" using ok fr(1) by simp
    next
      show "countLoads k (loads sh') =
         n0 + (if files sh' k \<noteq> None \<or> (fileIdOf key = k \<and> inFlight p') \<or> ?other then 1 else 0)"
        using cnt fl fr False by simp
    qed
  next
    case True
    from ok [OF i] True ci have oki: "callerOk storage (files sh (fileIdOf key)) (key, p)"
      by simp
    have alone: "\<not> holdsLock (snd (cs ! a))"
      if "holdsLock p" "a < length cs" "a \<noteq> i" "fileIdOf (fst (cs ! a)) = k" for a
    proof
      assume "holdsLock (snd (cs ! a))"
      from uniq [OF that(2) i this] that(1,3,4) True ci show False by simp
    qed
    consider (call) "p = AtCall" | (store) res where "p = AtStore res"
      | (quiet) "p \<noteq> AtCall" "\<forall>res. p \<noteq> AtStore res"
      by blast
    then show ?thesis
    proof cases
      case quiet
      note q = callerStep_quiet [OF c quiet oki]
      show ?thesis
      proof (rule concl)
        show "callerOk storage (files sh' k) (key, p')" using q(4) True by simp
      next
        fix a assume "a < length cs" "a \<noteq> i" "fileIdOf (fst (cs ! a)) = k"
        then show "callerOk storage (files sh' k) (cs ! a)" using ok q(1) by simp
      next
        show "countLoads k (loads sh') =
         n0 + (if files sh' k \<noteq> None \<or> (fileIdOf key = k \<and> inFlight p') \<or> ?other then 1 else 0)"
          using cnt fl q(1,2,3) by simp
      qed
    next
      case call
      note q = callerStep_call [OF c [unfolded call]]
      from oki call True have none: "files sh k = None" by simp
      have no_other: "\<not> ?other"
      proof
        assume ?other
        then obtain a where a: "a < length cs" "a \<noteq> i" "fileIdOf (fst (cs ! a)) = k"
          "inFlight (snd (cs ! a))" by blast
        from alone [OF _ a(1,2,3)] call a(4) show False
          by (simp add: inFlight_holdsLock)
      qed
      show ?thesis
      proof (rule concl)
        show "callerOk storage (files sh' k) (key, p')" using q none by simp
      next
        fix a assume "a < length cs" "a \<noteq> i" "fileIdOf (fst (cs ! a)) = k"
        then show "callerOk storage (files sh' k) (cs ! a)" using ok q(2) by simp
      next
        show "countLoads k (loads sh') =
         n0 + (if files sh' k \<noteq> None \<or> (fileIdOf key = k \<and> inFlight p') \<or> ?other then 1 else 0)"
          using cnt fl q none no_other call True by (simp add: countLoads_append)
      qed
    next
      case store
      obtain namespace grp fileName where key: "key = (namespace, grp, fileName)"
        by (cases key)
      from oki store True key have none: "files sh k = None"
        and res: "res = storage namespace grp fileName" by simp_all
      from True key have "GenFileId namespace grp fileName = k" by (simp add: fileIdOf_def)
      from noError_at [OF ne i _ this] ci key store res have "snd res = None" by simp
      from callerStep_store [OF c [unfolded store] this]
      obtain entry where p': "p' = AtUnlock (Inr entry)"
        and f': "files sh' = (files sh)(fileIdOf key \<mapsto> entry)" and l': "loads sh' = loads sh"
        by blast
      show ?thesis
      proof (rule concl)
        show "callerOk storage (files sh' k) (key, p')" using p' f' True by simp
      next
        fix a assume a: "a < length cs" "a \<noteq> i" "fileIdOf (fst (cs ! a)) = k"
        obtain ka pa where ca: "cs ! a = (ka, pa)" by (cases "cs ! a")
        from ok [OF a(1,3)] none ca have oka: "callerOk storage None (ka, pa)" by simp
        from alone [OF _ a] store ca have nh: "\<not> holdsLock pa" by simp
        from oka nh have "callerOk storage (files sh' k) (ka, pa)"
          by (cases pa) simp_all
        with ca show "callerOk storage (files sh' k) (cs ! a)" by simp
      next
        show "countLoads k (loads sh') =
         n0 + (if files sh' k \<noteq> None \<or> (fileIdOf key = k \<and> inFlight p') \<or> ?other then 1 else 0)"
          using cnt fl l' f' store True by simp
      qed
    qed
  qed
qed

lemma step_keys:
  assumes "step storage (cs, sh) (cs', sh')"
  shows "map fst cs' = map fst cs"
proof -
  from assms obtain i key p p' now raw where i: "i < length cs" and ci: "cs ! i = (key, p)"
    and cs': "cs' = cs[i := (key, p')]"
    by (rule step_elim)
  have "map fst cs' = (map fst cs)[i := key]"
    by (simp add: cs' map_update)
  also have "\<dots> = map fst cs"
    using i ci by (simp add: list_update_same_conv)
  finally show ?thesis .
qed

lemma noError_keys:
  assumes m: "map fst cs' = map fst cs" and n: "noError storage k cs"
  shows "noError storage k cs'"
  unfolding noError_def
proof (intro ballI impI)
  fix c
  assume c: "c \<in> set cs'" and f: "fileIdOf (fst c) = k"
  from c obtain i where i: "i < length cs'" and ci: "cs' ! i = c"
    by (auto simp add: in_set_conv_nth)
  from m have len: "length cs' = length cs" by (rule map_eq_imp_length_eq)
  from m have "map fst cs' ! i = map fst cs ! i" by simp
  with i len have e: "fst (cs' ! i) = fst (cs ! i)" by simp
  from i len have "cs ! i \<in> set cs" by simp
  with n f e ci have "case fst (cs ! i) of (namespace, grp, fileName) \<Rightarrow>
      snd (storage namespace grp fileName) = None"
    unfolding noError_def by auto
  with e ci show "case fst c of (namespace, grp, fileName) \<Rightarrow>
      snd (storage namespace grp fileName) = None"
    by simp
qed

lemma initial_Start: "initial (cs, sh) \<Longrightarrow> i < length cs \<Longrightarrow> snd (cs ! i) = Start"
  by (simp add: initial_def)

lemma initial_locked: "initial (cs, sh) \<Longrightarrow> locked sh = {}"
  by (simp add: initial_def)

lemma initial_lockInv:
  assumes "initial (cs, sh)"
  shows "lockInv (cs, sh)"
proof -
  have h: "\<not> holdsLock (snd (cs ! i))" if "i < length cs" for i
    using initial_Start [OF assms that] by simp
  have "\<not> (\<exists>i. i < length cs \<and> holdsLock (snd (cs ! i)) \<and> fileIdOf (fst (cs ! i)) = k)" for k
    using h by blast
  then have l: "\<forall>k. k \<in> locked sh \<longleftrightarrow>
      (\<exists>i. i < length cs \<and> holdsLock (snd (cs ! i)) \<and> fileIdOf (fst (cs ! i)) = k)"
    using initial_locked [OF assms] by simp
  have u: "\<forall>i j. i < length cs \<and> j < length cs
         \<and> holdsLock (snd (cs ! i)) \<and> holdsLock (snd (cs ! j))
         \<and> fileIdOf (fst (cs ! i)) = fileIdOf (fst (cs ! j)) \<longrightarrow> i = j"
    using h by blast
  from u l show ?thesis
    unfolding lockInv_def by simp
qed

lemma initial_onceInv:
  assumes "initial (cs, sh)" and "files sh k = None"
  shows "onceInv storage k (countLoads k (loads sh)) (cs, sh)"
proof -
  have a: "callerOk storage None (cs ! i)" if "i < length cs" for i
  proof -
    have "cs ! i = (fst (cs ! i), Start)"
      using initial_Start [OF assms(1) that] by (simp add: prod_eq_iff)
    then have "callerOk storage None (cs ! i) = callerOk storage None (fst (cs ! i), Start)"
      by simp
    then show ?thesis by simp
  qed
  have b: "\<not> inFlight (snd (cs ! i))" if "i < length cs" for i
    using initial_Start [OF assms(1) that] by simp
  have c: "\<not> (\<exists>i. i < length cs \<and> fileIdOf (fst (cs ! i)) = k \<and> inFlight (snd (cs ! i)))"
    using b by blast
  show ?thesis
    unfolding onceInv_def using a c assms(2) by simp
qed

lemma reachable_lockInv:
  assumes "(step storage)\<^sup>*\<^sup>* conf0 conf" and "lockInv conf0"
  shows "lockInv conf"
  using assms
proof (induction rule: rtranclp_induct)
  case base
  then show ?case .
next
  case (step y z)
  obtain cs sh where y: "y = (cs, sh)" by (cases y)
  obtain cs' sh' where z: "z = (cs', sh')" by (cases z)
  from step.IH step.prems y have l: "lockInv (cs, sh)" by simp
  from step.hyps(2) y z have s: "step storage (cs, sh) (cs', sh')" by simp
  from lockInv_step [OF l s] z show ?case by simp
qed

lemma reachable_keys:
  assumes "(step storage)\<^sup>*\<^sup>* conf0 conf"
  shows "map fst (fst conf) = map fst (fst conf0)"
  using assms
proof (induction rule: rtranclp_induct)
  case base
  show ?case by simp
next
  case (step y z)
  obtain cs sh where y: "y = (cs, sh)" by (cases y)
  obtain cs' sh' where z: "z = (cs', sh')" by (cases z)
  from step.hyps(2) y z have s: "step storage (cs, sh) (cs', sh')" by simp
  from step_keys [OF s] step.IH y z show ?case by simp
qed

lemma reachable_onceInv:
  assumes "(step storage)\<^sup>*\<^sup>* conf0 conf" and "lockInv conf0"
    and "onceInv storage k n0 conf0" and "noError storage k (fst conf0)"
  shows "onceInv storage k n0 conf"
  using assms
proof (induction rule: rtranclp_induct)
  case base
  then show ?case by simp
next
  case (step y z)
  obtain cs sh where y: "y = (cs, sh)" by (cases y)
  obtain cs' sh' where z: "z = (cs', sh')" by (cases z)
  from step.IH step.prems y have o: "onceInv storage k n0 (cs, sh)" by simp
  from reachable_lockInv [OF step.hyps(1) step.prems(1)] y have l: "lockInv (cs, sh)" by simp
  from reachable_keys [OF step.hyps(1)] y have m: "map fst cs = map fst (fst conf0)" by simp
  from m step.prems(3) have n: "noError storage k cs" by (rule noError_keys)
  from step.hyps(2) y z have s: "step storage (cs, sh) (cs', sh')" by simp
  from onceInv_step [OF l o n s] z show ?case by simp
qed

lemma blocked_iff:
  "callerStep storage now raw (key, p) sh = None
     \<longleftrightarrow> (\<exists>r. p = Returned r) \<or> (p = AtLock \<and> fileIdOf key \<in> locked sh)"
  by (cases key; cases p) (auto simp add: Let_def split: option.splits prod.splits)

lemma callerStep_remaining:
  "callerStep storage now raw (key, p) sh = Some ((key', p'), sh') \<Longrightarrow> remaining p' < remaining p"
  by (cases p) (auto simp add: Let_def split: option.splits if_splits prod.splits)

lemma step_remaining:
  assumes "step storage (cs, sh) (cs', sh')"
  shows "remainingSteps cs' < remainingSteps cs"
proof -
  from assms obtain i key p p' now raw where i: "i < length cs" and ci: "cs ! i = (key, p)"
    and cs': "cs' = cs[i := (key, p')]"
    and c: "callerStep storage now raw (key, p) sh = Some ((key, p'), sh')"
    by (rule step_elim)
  let ?f = "\<lambda>c :: caller. remaining (snd c)"
  let ?xs = "map ?f cs"
  from i have ix: "i < length ?xs" by simp
  have xi: "?xs ! i = remaining p" using i ci by simp
  from ix have le: "?xs ! i \<le> sum_list ?xs" by (rule elem_le_sum_list)
  have "map ?f cs' = ?xs[i := remaining p']"
    by (simp add: cs' map_update)
  then have "remainingSteps cs' = sum_list (?xs[i := remaining p'])"
    by (simp add: remainingSteps_def)
  also have "\<dots> = sum_list ?xs + remaining p' - ?xs ! i"
    using ix by (rule sum_list_update)
  also have "\<dots> < sum_list ?xs"
    using le xi callerStep_remaining [OF c] by simp
  finally show ?thesis by (simp add: remainingSteps_def)
qed

lemma progress:
  assumes linv: "lockInv (cs, sh)" and nf: "\<not> allReturned cs"
  shows "\<exists>conf'. step storage (cs, sh) conf'"
proof -
  from nf obtain c where c: "c \<in> set cs" and nr: "\<forall>r. snd c \<noteq> Returned r"
    by (auto simp add: allReturned_def split: pc.splits)
  from c obtain i where i: "i < length cs" and ci: "cs ! i = c"
    by (auto simp add: in_set_conv_nth)
  obtain key p where kp: "c = (key, p)" by (cases c)
  have can: "\<exists>conf'. step storage (cs, sh) conf'"
    if j: "j < length cs" and e: "callerStep storage 0 0 (cs ! j) sh \<noteq> None" for j
  proof -
    from e obtain c' sh' where "callerStep storage 0 0 (cs ! j) sh = Some (c', sh')" by auto
    from stepI [OF j this] show ?thesis by blast
  qed
  show ?thesis
  proof (cases "callerStep storage 0 0 (key, p) sh = None")
    case False
    with can [OF i] ci kp show ?thesis by simp
  next
    case True
    with nr kp have lk: "p = AtLock" "fileIdOf key \<in> locked sh"
      by (simp_all add: blocked_iff)
    from linv lk(2) obtain j where j: "j < length cs" and h: "holdsLock (snd (cs ! j))"
      unfolding lockInv_def by auto
    obtain kj pj where cj: "cs ! j = (kj, pj)" by (cases "cs ! j")
    from h cj have "holdsLock pj" by simp
    then have "callerStep storage 0 0 (kj, pj) sh \<noteq> None"
      by (auto simp add: blocked_iff)
    with can [OF j] cj show ?thesis by simp
  qed
qed

lemma eventually_allReturned:
  assumes "lockInv conf"
  shows "\<exists>conf'. (step storage)\<^sup>*\<^sup>* conf conf' \<and> allReturned (fst conf')"
  using assms
proof (induction "remainingSteps (fst conf)" arbitrary: conf rule: less_induct)
  case less
  obtain cs sh where conf: "conf = (cs, sh)" by (cases conf)
  show ?case
  proof (cases "allReturned cs")
    case True
    with conf show ?thesis by auto
  next
    case False
    from less.prems conf have l: "lockInv (cs, sh)" by simp
    from progress [OF l False] obtain cs' sh' where s: "step storage (cs, sh) (cs', sh')"
      by (metis prod.exhaust)
    from step_remaining [OF s] conf have m: "remainingSteps (fst (cs', sh')) < remainingSteps (fst conf)"
      by simp
    from lockInv_step [OF l s] have l': "lockInv (cs', sh')" .
    from less.hyps [OF m l'] obtain conf' where r: "(step storage)\<^sup>*\<^sup>* (cs', sh') conf'"
      and f: "allReturned (fst conf')" by blast
    from s r have "(step storage)\<^sup>*\<^sup>* (cs, sh) conf'"
      by (rule converse_rtranclp_into_rtranclp)
    with f conf show ?thesis by blast
  qed
qed

lemma blocked_only_by_same_fileId:
  assumes linv: "lockInv (cs, sh)" and i: "i < length cs" and ci: "cs ! i = (key, p)"
  shows "callerStep storage now raw (key, p) sh = None
     \<longleftrightarrow> (\<exists>r. p = Returned r)
        \<or> (p = AtLock \<and> (\<exists>j. j < length cs \<and> j \<noteq> i \<and> holdsLock (snd (cs ! j))
                             \<and> fileIdOf (fst (cs ! j)) = fileIdOf key))"
proof -
  from linv have lk: "fileIdOf key \<in> locked sh \<longleftrightarrow>
      (\<exists>j. j < length cs \<and> holdsLock (snd (cs ! j)) \<and> fileIdOf (fst (cs ! j)) = fileIdOf key)"
    unfolding lockInv_def by simp
  have "(\<exists>j. j < length cs \<and> holdsLock (snd (cs ! j)) \<and> fileIdOf (fst (cs ! j)) = fileIdOf key)
      \<longleftrightarrow> (\<exists>j. j < length cs \<and> j \<noteq> i \<and> holdsLock (snd (cs ! j))
                \<and> fileIdOf (fst (cs ! j)) = fileIdOf key)"
    if "p = AtLock"
    using that ci by (metis holdsLock.simps(3) snd_conv)
  with lk show ?thesis
    unfolding blocked_iff by blast
qed

lemma schedule_sound:
  "schedule storage sched conf = Some conf' \<Longrightarrow> (step storage)\<^sup>*\<^sup>* conf conf'"
proof (induction sched arbitrary: conf)
  case Nil
  then show ?case by simp
next
  case (Cons a rest)
  obtain i now raw where a: "a = (i, now, raw)" by (cases a)
  obtain cs sh where conf: "conf = (cs, sh)" by (cases conf)
  from Cons.prems a conf have i: "i < length cs"
    by (simp split: if_splits)
  from Cons.prems a conf i obtain c' sh' where
    c: "callerStep storage now raw (cs ! i) sh = Some (c', sh')"
    and r: "schedule storage rest (cs[i := c'], sh') = Some conf'"
    by (auto split: option.splits)
  from stepI [OF i c] have "step storage (cs, sh) (cs[i := c'], sh')" .
  moreover from r have "(step storage)\<^sup>*\<^sup>* (cs[i := c'], sh') conf'" by (rule Cons.IH)
  ultimately show ?case unfolding conf by (rule converse_rtranclp_into_rtranclp)
qed

lemma inCall_unique:
  assumes "lockInv (cs, sh)"
  shows "\<forall>i j. i < length cs \<and> j < length cs \<and> snd (cs ! i) = InCall \<and> snd (cs ! j) = InCall
           \<and> fileIdOf (fst (cs ! i)) = fileIdOf (fst (cs ! j)) \<longrightarrow> i = j"
proof (intro allI impI)
  fix i j
  assume a: "i < length cs \<and> j < length cs \<and> snd (cs ! i) = InCall \<and> snd (cs ! j) = InCall
           \<and> fileIdOf (fst (cs ! i)) = fileIdOf (fst (cs ! j))"
  then have "holdsLock (snd (cs ! i))" "holdsLock (snd (cs ! j))" by simp_all
  with a assms show "i = j" unfolding lockInv_def by blast
qed

lemma allReturned_D:
  assumes "allReturned cs" and "c \<in> set cs"
  shows "\<exists>r. snd c = Returned r"
proof -
  from assms have "case snd c of Returned r \<Rightarrow> True | _ \<Rightarrow> False"
    unfolding allReturned_def by blast
  then show ?thesis by (cases "snd c") simp_all
qed

lemma once_bound:
  assumes "onceInv storage k n0 (cs, sh)"
  shows "countLoads k (loads sh) \<le> n0 + 1"
  using assms unfolding onceInv_def by (simp split: if_splits)

lemma once_final:
  assumes o: "onceInv storage k n0 (cs, sh)" and f: "allReturned cs"
    and e: "\<exists>c \<in> set cs. fileIdOf (fst c) = k"
  shows "countLoads k (loads sh) = n0 + 1
    \<and> (\<exists>entry. files sh k = Some entry
          \<and> (\<forall>c \<in> set cs. fileIdOf (fst c) = k \<longrightarrow> snd c = Returned (Inr entry)))"
proof -
  have ret: "\<exists>entry. files sh k = Some entry \<and> snd c = Returned (Inr entry)"
    if c: "c \<in> set cs" and fk: "fileIdOf (fst c) = k" for c
  proof -
    from c obtain i where i: "i < length cs" and ci: "cs ! i = c"
      by (auto simp add: in_set_conv_nth)
    from allReturned_D [OF f c] obtain r where r: "snd c = Returned r" by blast
    then have "c = (fst c, Returned r)" by (simp add: prod_eq_iff)
    moreover from o i ci fk have "callerOk storage (files sh k) c"
      unfolding onceInv_def by auto
    ultimately have "callerOk storage (files sh k) (fst c, Returned r)" by simp
    with r show ?thesis by (simp split: option.splits)
  qed
  from e obtain c0 where c0: "c0 \<in> set cs" "fileIdOf (fst c0) = k" by blast
  from ret [OF c0] obtain entry where en: "files sh k = Some entry" by blast
  with o have n: "countLoads k (loads sh) = n0 + 1"
    unfolding onceInv_def by simp
  have "\<forall>c \<in> set cs. fileIdOf (fst c) = k \<longrightarrow> snd c = Returned (Inr entry)"
    using ret en by fastforce
  with n en show ?thesis by blast
qed

text \<open>
  The stepped model with one caller, the mutex of its file id free, ends after one or
  eight steps with the result and the cache of the function \<open>GetOrLoadIfAbsent\<close> above.
\<close>

lemma alone_agrees:
  assumes "GenFileId namespace grp fileName \<notin> locked sh"
  shows "\<exists>n sh'. schedule storage (replicate n (0, now, raw))
                    ([((namespace, grp, fileName), Start)], sh)
               = Some ([((namespace, grp, fileName),
                         Returned (fst (GetOrLoadIfAbsent storage now raw namespace grp fileName
                                          (FileCache.truncate sh))))], sh')
             \<and> FileCache.truncate sh'
                 = snd (GetOrLoadIfAbsent storage now raw namespace grp fileName (FileCache.truncate sh))
             \<and> locked sh' = locked sh"
proof (cases "files sh (GenFileId namespace grp fileName)")
  case (Some entry)
  then have "schedule storage (replicate (Suc 0) (0, now, raw))
                    ([((namespace, grp, fileName), Start)], sh)
      = Some ([((namespace, grp, fileName),
                         Returned (fst (GetOrLoadIfAbsent storage now raw namespace grp fileName
                                          (FileCache.truncate sh))))], sh\<lparr>getCnt := getCnt sh + 1\<rparr>)"
    by (simp add: fileIdOf_def GetOrLoadIfAbsent_def FileCache.truncate_def Let_def)
  moreover from Some have "FileCache.truncate (sh\<lparr>getCnt := getCnt sh + 1\<rparr>)
      = snd (GetOrLoadIfAbsent storage now raw namespace grp fileName (FileCache.truncate sh))"
    by (simp add: GetOrLoadIfAbsent_def FileCache.truncate_def Let_def)
  ultimately show ?thesis by fastforce
next
  case None
  obtain rel err where s: "storage namespace grp fileName = (rel, err)"
    by (cases "storage namespace grp fileName")
  let ?r = "fst (GetOrLoadIfAbsent storage now raw namespace grp fileName (FileCache.truncate sh))"
  let ?t = "snd (GetOrLoadIfAbsent storage now raw namespace grp fileName (FileCache.truncate sh))"
  have "\<exists>sh'. schedule storage (replicate 8 (0, now, raw))
                    ([((namespace, grp, fileName), Start)], sh)
      = Some ([((namespace, grp, fileName), Returned ?r)], sh')
      \<and> FileCache.truncate sh' = ?t \<and> locked sh' = locked sh"
    using None s assms
    by (cases rel; cases err)
      (simp_all add: eval_nat_numeral fileIdOf_def GetOrLoadIfAbsent_def FileCache.truncate_def
        Let_def)
  then show ?thesis by blast
qed

lemma run_error_twice:
  "schedule (\<lambda>a b c. (None, Some (Error ''down'')))
     [(0, 10, 5), (0, 10, 5), (0, 10, 5), (0, 10, 5), (0, 10, 5), (0, 10, 5), (0, 10, 5), (0, 10, 5),
      (Suc 0, 20, 7), (Suc 0, 20, 7), (Suc 0, 20, 7), (Suc 0, 20, 7), (Suc 0, 20, 7), (Suc 0, 20, 7),
      (Suc 0, 20, 7), (Suc 0, 20, 7)]
     ([((''n'', ''g'', ''f''), Start), ((''n'', ''g'', ''f''), Start)], newShared)
   = Some ([((''n'', ''g'', ''f''), Returned (Inl (Error ''down''))),
            ((''n'', ''g'', ''f''), Returned (Inl (Error ''down'')))],
           newShared\<lparr>fileLoadLocks := {''n+g+f''}, loadCnt := 2, getCnt := 2,
             logged := [LoadError ''n'' ''g'' ''f'' (Error ''down''),
                        LoadError ''n'' ''g'' ''f'' (Error ''down'')],
             loads := [(''n'', ''g'', ''f''), (''n'', ''g'', ''f'')]\<rparr>)"
  by (simp add: newShared_def NewFileCache_def FileCache.defs Shared.defs fileIdOf_def
      GenFileId_def FileIdSeparator_def Let_def)

lemma run_absent_once:
  "schedule (\<lambda>a b c. (None, None))
     [(0, 10, 5), (Suc 0, 20, 7), (0, 10, 5), (Suc 0, 20, 7), (0, 10, 5), (0, 10, 5), (0, 10, 5),
      (0, 10, 5), (0, 10, 5), (0, 10, 5), (Suc 0, 20, 7), (Suc 0, 20, 7), (Suc 0, 20, 7)]
     ([((''n'', ''g'', ''f''), Start), ((''n'', ''g'', ''f''), Start)], newShared)
   = Some ([((''n'', ''g'', ''f''),
             Returned (Inr \<lparr>Content = '''', Md5 = '''', Version = 0,
                             ExpireTime = getExpireTime 10 5, Empty = True\<rparr>)),
            ((''n'', ''g'', ''f''),
             Returned (Inr \<lparr>Content = '''', Md5 = '''', Version = 0,
                             ExpireTime = getExpireTime 10 5, Empty = True\<rparr>))],
           newShared\<lparr>files := [''n+g+f'' \<mapsto> \<lparr>Content = '''', Md5 = '''', Version = 0,
                                      ExpireTime = getExpireTime 10 5, Empty = True\<rparr>],
             fileLoadLocks := {''n+g+f''}, loadCnt := 1, getCnt := 2,
             loads := [(''n'', ''g'', ''f'')]\<rparr>)"
  by (simp add: newShared_def NewFileCache_def FileCache.defs Shared.defs fileIdOf_def
      GenFileId_def FileIdSeparator_def Let_def)

text \<open>
  C4: in every state that callers of \<open>GetOrLoadIfAbsent\<close> reach from their start, at most
  one storage call is in flight for a file id; a caller that has not returned can move
  unless it is at \<open>Lock\<close> and another caller of the same file id holds the mutex; every
  step brings the callers nearer to their return and the state where all have returned
  is reachable. If the file id \<open>k\<close> has no entry at the start and the storage has no
  error for the callers of \<open>k\<close>, the storage is invoked for \<open>k\<close> at most once, and when
  all callers have returned exactly once, with the callers of \<open>k\<close> all returning the entry
  that the cache then holds for \<open>k\<close>.
\<close>

theorem C4_one_load_per_key:
  assumes init: "initial (cs0, sh0)"
    and reach: "(step storage)\<^sup>*\<^sup>* (cs0, sh0) (cs, sh)"
  shows "(\<forall>i j. i < length cs \<and> j < length cs \<and> snd (cs ! i) = InCall \<and> snd (cs ! j) = InCall
           \<and> fileIdOf (fst (cs ! i)) = fileIdOf (fst (cs ! j)) \<longrightarrow> i = j)
    \<and> (\<forall>i now raw. i < length cs \<longrightarrow>
          (callerStep storage now raw (cs ! i) sh = None
             \<longleftrightarrow> (\<exists>r. snd (cs ! i) = Returned r)
                \<or> (snd (cs ! i) = AtLock
                    \<and> (\<exists>j. j < length cs \<and> j \<noteq> i \<and> holdsLock (snd (cs ! j))
                          \<and> fileIdOf (fst (cs ! j)) = fileIdOf (fst (cs ! i))))))
    \<and> (\<forall>conf'. step storage (cs, sh) conf' \<longrightarrow> remainingSteps (fst conf') < remainingSteps cs)
    \<and> (\<exists>cs' sh'. (step storage)\<^sup>*\<^sup>* (cs, sh) (cs', sh') \<and> allReturned cs')
    \<and> (files sh0 k = None \<and> noError storage k cs0 \<longrightarrow>
          countLoads k (loads sh) \<le> countLoads k (loads sh0) + 1)
    \<and> (files sh0 k = None \<and> noError storage k cs0 \<and> allReturned cs
          \<and> (\<exists>c \<in> set cs0. fileIdOf (fst c) = k) \<longrightarrow>
          countLoads k (loads sh) = countLoads k (loads sh0) + 1
          \<and> (\<exists>entry. files sh k = Some entry
                \<and> (\<forall>c \<in> set cs. fileIdOf (fst c) = k \<longrightarrow> snd c = Returned (Inr entry))))"
proof -
  from init have l0: "lockInv (cs0, sh0)" by (rule initial_lockInv)
  from reachable_lockInv [OF reach l0] have l: "lockInv (cs, sh)" .
  from reachable_keys [OF reach] have keys: "map fst cs = map fst cs0" by simp
  have one: "\<forall>i j. i < length cs \<and> j < length cs \<and> snd (cs ! i) = InCall \<and> snd (cs ! j) = InCall
           \<and> fileIdOf (fst (cs ! i)) = fileIdOf (fst (cs ! j)) \<longrightarrow> i = j"
    using l by (rule inCall_unique)
  have blk: "\<forall>i now raw. i < length cs \<longrightarrow>
          (callerStep storage now raw (cs ! i) sh = None
             \<longleftrightarrow> (\<exists>r. snd (cs ! i) = Returned r)
                \<or> (snd (cs ! i) = AtLock
                    \<and> (\<exists>j. j < length cs \<and> j \<noteq> i \<and> holdsLock (snd (cs ! j))
                          \<and> fileIdOf (fst (cs ! j)) = fileIdOf (fst (cs ! i)))))"
  proof (intro allI impI)
    fix i now raw
    assume i: "i < length cs"
    have ci: "cs ! i = (fst (cs ! i), snd (cs ! i))" by simp
    from blocked_only_by_same_fileId [OF l i ci, of storage now raw]
    show "callerStep storage now raw (cs ! i) sh = None
             \<longleftrightarrow> (\<exists>r. snd (cs ! i) = Returned r)
                \<or> (snd (cs ! i) = AtLock
                    \<and> (\<exists>j. j < length cs \<and> j \<noteq> i \<and> holdsLock (snd (cs ! j))
                          \<and> fileIdOf (fst (cs ! j)) = fileIdOf (fst (cs ! i))))"
      by simp
  qed
  have dec: "\<forall>conf'. step storage (cs, sh) conf' \<longrightarrow> remainingSteps (fst conf') < remainingSteps cs"
  proof (intro allI impI)
    fix conf'
    assume s: "step storage (cs, sh) conf'"
    obtain cs' sh' where "conf' = (cs', sh')" by (cases conf')
    with s step_remaining [of storage cs sh cs' sh']
    show "remainingSteps (fst conf') < remainingSteps cs" by simp
  qed
  from eventually_allReturned [OF l, of storage]
  have fin: "\<exists>cs' sh'. (step storage)\<^sup>*\<^sup>* (cs, sh) (cs', sh') \<and> allReturned cs'"
    by auto
  have inv: "onceInv storage k (countLoads k (loads sh0)) (cs, sh)"
    if "files sh0 k = None" "noError storage k cs0"
  proof -
    from initial_onceInv [OF init that(1)]
    have "onceInv storage k (countLoads k (loads sh0)) (cs0, sh0)" .
    from reachable_onceInv [OF reach l0 this] that(2) show ?thesis by simp
  qed
  have bound: "files sh0 k = None \<and> noError storage k cs0 \<longrightarrow>
          countLoads k (loads sh) \<le> countLoads k (loads sh0) + 1"
    using inv once_bound by blast
  have final: "files sh0 k = None \<and> noError storage k cs0 \<and> allReturned cs
          \<and> (\<exists>c \<in> set cs0. fileIdOf (fst c) = k) \<longrightarrow>
          countLoads k (loads sh) = countLoads k (loads sh0) + 1
          \<and> (\<exists>entry. files sh k = Some entry
                \<and> (\<forall>c \<in> set cs. fileIdOf (fst c) = k \<longrightarrow> snd c = Returned (Inr entry)))"
  proof
    assume a: "files sh0 k = None \<and> noError storage k cs0 \<and> allReturned cs
          \<and> (\<exists>c \<in> set cs0. fileIdOf (fst c) = k)"
    then have o: "onceInv storage k (countLoads k (loads sh0)) (cs, sh)" using inv by blast
    from a obtain c where "c \<in> set cs0" "fileIdOf (fst c) = k" by blast
    then have "\<exists>key \<in> set (map fst cs0). fileIdOf key = k" by force
    with keys have "\<exists>key \<in> set (map fst cs). fileIdOf key = k" by simp
    then have e: "\<exists>c \<in> set cs. fileIdOf (fst c) = k" by force
    from a have f: "allReturned cs" by blast
    from once_final [OF o f e]
    show "countLoads k (loads sh) = countLoads k (loads sh0) + 1
          \<and> (\<exists>entry. files sh k = Some entry
                \<and> (\<forall>c \<in> set cs. fileIdOf (fst c) = k \<longrightarrow> snd c = Returned (Inr entry)))" .
  qed
  show ?thesis
    using one blk dec fin bound final by (intro conjI)
qed

theorem C4_one_load_per_key_witness:
  "initial ([((''n'', ''g'', ''f''), Start), ((''n'', ''g'', ''f''), Start)], newShared)
   \<and> (step (\<lambda>a b c. (None, None)))\<^sup>*\<^sup>*
        ([((''n'', ''g'', ''f''), Start), ((''n'', ''g'', ''f''), Start)], newShared)
        ([((''n'', ''g'', ''f''),
           Returned (Inr \<lparr>Content = '''', Md5 = '''', Version = 0,
                           ExpireTime = getExpireTime 10 5, Empty = True\<rparr>)),
          ((''n'', ''g'', ''f''),
           Returned (Inr \<lparr>Content = '''', Md5 = '''', Version = 0,
                           ExpireTime = getExpireTime 10 5, Empty = True\<rparr>))],
         newShared\<lparr>files := [''n+g+f'' \<mapsto> \<lparr>Content = '''', Md5 = '''', Version = 0,
                                    ExpireTime = getExpireTime 10 5, Empty = True\<rparr>],
           fileLoadLocks := {''n+g+f''}, loadCnt := 1, getCnt := 2,
           loads := [(''n'', ''g'', ''f'')]\<rparr>)
   \<and> files newShared ''n+g+f'' = None
   \<and> noError (\<lambda>a b c. (None, None)) ''n+g+f''
        [((''n'', ''g'', ''f''), Start), ((''n'', ''g'', ''f''), Start)]
   \<and> countLoads ''n+g+f''
        (loads (newShared\<lparr>files := [''n+g+f'' \<mapsto> \<lparr>Content = '''', Md5 = '''', Version = 0,
                                    ExpireTime = getExpireTime 10 5, Empty = True\<rparr>],
           fileLoadLocks := {''n+g+f''}, loadCnt := 1, getCnt := 2,
           loads := [(''n'', ''g'', ''f'')]\<rparr>)) = 1"
proof -
  let ?cs0 = "[((''n'', ''g'', ''f''), Start), ((''n'', ''g'', ''f''), Start)]"
  let ?e = "\<lparr>Content = '''', Md5 = '''', Version = 0,
                           ExpireTime = getExpireTime 10 5, Empty = True\<rparr>"
  let ?csF = "[((''n'', ''g'', ''f''), Returned (Inr ?e)), ((''n'', ''g'', ''f''), Returned (Inr ?e))]"
  let ?shF = "newShared\<lparr>files := [''n+g+f'' \<mapsto> ?e],
           fileLoadLocks := {''n+g+f''}, loadCnt := 1, getCnt := 2,
           loads := [(''n'', ''g'', ''f'')]\<rparr>"
  have a: "initial (?cs0, newShared)"
    by (simp add: initial_def newShared_def FileCache.defs Shared.defs)
  note r = schedule_sound [OF run_absent_once]
  have b: "files newShared ''n+g+f'' = None"
    by (simp add: newShared_def NewFileCache_def FileCache.defs Shared.defs)
  have n: "noError (\<lambda>a b c. (None, None)) ''n+g+f'' ?cs0"
    by (simp add: noError_def)
  have f: "allReturned ?csF"
    by (simp add: allReturned_def)
  have x: "\<exists>c \<in> set ?cs0. fileIdOf (fst c) = ''n+g+f''"
    by (simp add: fileIdOf_def GenFileId_def FileIdSeparator_def)
  have l0: "countLoads ''n+g+f'' (loads newShared) = 0"
    by (simp add: countLoads_def newShared_def NewFileCache_def FileCache.defs Shared.defs)
  note t = C4_one_load_per_key [OF a r, where k = "''n+g+f''"]
  from t b n f x have "countLoads ''n+g+f'' (loads ?shF)
      = countLoads ''n+g+f'' (loads newShared) + 1"
    by blast
  with l0 have c: "countLoads ''n+g+f'' (loads ?shF) = 1" by simp
  from a r b n c show ?thesis by (intro conjI)
qed

text \<open>
  Without the condition on the storage the count is not one: two callers of a key whose
  storage call fails both invoke the storage and both return the error.
\<close>

theorem C4_counterexample:
  "initial ([((''n'', ''g'', ''f''), Start), ((''n'', ''g'', ''f''), Start)], newShared)
   \<and> files newShared (fileIdOf (''n'', ''g'', ''f'')) = None
   \<and> (step (\<lambda>a b c. (None, Some (Error ''down''))))\<^sup>*\<^sup>*
        ([((''n'', ''g'', ''f''), Start), ((''n'', ''g'', ''f''), Start)], newShared)
        ([((''n'', ''g'', ''f''), Returned (Inl (Error ''down''))),
          ((''n'', ''g'', ''f''), Returned (Inl (Error ''down'')))],
         newShared\<lparr>fileLoadLocks := {''n+g+f''}, loadCnt := 2, getCnt := 2,
           logged := [LoadError ''n'' ''g'' ''f'' (Error ''down''),
                      LoadError ''n'' ''g'' ''f'' (Error ''down'')],
           loads := [(''n'', ''g'', ''f''), (''n'', ''g'', ''f'')]\<rparr>)
   \<and> allReturned [((''n'', ''g'', ''f''), Returned (Inl (Error ''down''))),
                  ((''n'', ''g'', ''f''), Returned (Inl (Error ''down'')))]
   \<and> countLoads (fileIdOf (''n'', ''g'', ''f''))
        (loads (newShared\<lparr>fileLoadLocks := {''n+g+f''}, loadCnt := 2, getCnt := 2,
           logged := [LoadError ''n'' ''g'' ''f'' (Error ''down''),
                      LoadError ''n'' ''g'' ''f'' (Error ''down'')],
           loads := [(''n'', ''g'', ''f''), (''n'', ''g'', ''f'')]\<rparr>)) = 2"
proof -
  have a: "initial ([((''n'', ''g'', ''f''), Start), ((''n'', ''g'', ''f''), Start)], newShared)"
    by (simp add: initial_def newShared_def FileCache.defs Shared.defs)
  have b: "files newShared (fileIdOf (''n'', ''g'', ''f'')) = None"
    by (simp add: newShared_def NewFileCache_def FileCache.defs Shared.defs)
  note c = schedule_sound [OF run_error_twice]
  have d: "allReturned [((''n'', ''g'', ''f''), Returned (Inl (Error ''down''))),
                  ((''n'', ''g'', ''f''), Returned (Inl (Error ''down'')))]"
    by (simp add: allReturned_def)
  have e: "countLoads (fileIdOf (''n'', ''g'', ''f''))
        (loads (newShared\<lparr>fileLoadLocks := {''n+g+f''}, loadCnt := 2, getCnt := 2,
           logged := [LoadError ''n'' ''g'' ''f'' (Error ''down''),
                      LoadError ''n'' ''g'' ''f'' (Error ''down'')],
           loads := [(''n'', ''g'', ''f''), (''n'', ''g'', ''f'')]\<rparr>)) = 2"
    by (simp add: countLoads_def)
  from a b c d e show ?thesis by (intro conjI)
qed

end
